theory Spec2Isabelle
  imports Complex_Main "HOL-Library.Sublist" "HOL-Library.Char_ord" "HOL-Library.List_Lexorder"
begin

section \<open>Values read from a transcript\<close>

text \<open>
  The summarizer (\<^verbatim>\<open>summaries.py\<close>) reads transcripts that are lines of JSON. A decoded
  JSON value is what \<^verbatim>\<open>json.loads\<close> returns: \<^verbatim>\<open>None\<close>, a bool, an int, a float, a str,
  a list or a dict with str keys. A dict is kept as an association list in insertion
  order; its keys are distinct, as they are in a Python dict. Python's \<^verbatim>\<open>None\<close> and
  JSON's \<^verbatim>\<open>null\<close> are the same value, \<open>JNull\<close>. Python strings are lists of characters;
  a \<^typ>\<open>char\<close> stands for one code point. What the library does with the code points of
  a str (its bytes, its upper case) is a parameter, see below. A float is kept as the rational it
  denotes; no function below computes with it.
\<close>

datatype json =
    JNull
  | JBool bool
  | JInt int
  | JFloat rat
  | JStr string
  | JArr "json list"
  | JObj "(string \<times> json) list"

text \<open>The exceptions the code can meet; each \<^verbatim>\<open>raise\<close> is a left injection.\<close>

datatype exn =
    AttributeError
  | TypeError
  | RuntimeError string
  | OSError
  | JSONDecodeError
  | ValueError
  | RecursionError
  | UnicodeDecodeError

text \<open>Truth value of a Python object, as \<^verbatim>\<open>if x\<close>, \<^verbatim>\<open>x or y\<close> and \<^verbatim>\<open>not x\<close> use it.\<close>

fun truthy :: "json \<Rightarrow> bool" where
  "truthy JNull = False"
| "truthy (JBool b) = b"
| "truthy (JInt i) = (i \<noteq> 0)"
| "truthy (JFloat r) = (r \<noteq> 0)"
| "truthy (JStr s) = (s \<noteq> [])"
| "truthy (JArr xs) = (xs \<noteq> [])"
| "truthy (JObj kvs) = (kvs \<noteq> [])"

definition py_or :: "json \<Rightarrow> json \<Rightarrow> json" where
  "py_or a b = (if truthy a then a else b)"

text \<open>\<^verbatim>\<open>d.get(key)\<close> and \<^verbatim>\<open>d.get(key, default)\<close> on a dict.\<close>

definition dict_get :: "(string \<times> json) list \<Rightarrow> string \<Rightarrow> json" where
  "dict_get d key = (case map_of d key of None \<Rightarrow> JNull | Some v \<Rightarrow> v)"

definition dict_get_default :: "(string \<times> json) list \<Rightarrow> string \<Rightarrow> json \<Rightarrow> json" where
  "dict_get_default d key dflt = (case map_of d key of None \<Rightarrow> dflt | Some v \<Rightarrow> v)"

text \<open>\<^verbatim>\<open>obj.get(key)\<close> on any value: only a dict has the method.\<close>

definition obj_get :: "json \<Rightarrow> string \<Rightarrow> exn + json" where
  "obj_get obj key = (case obj of JObj d \<Rightarrow> Inr (dict_get d key) | _ \<Rightarrow> Inl AttributeError)"

text \<open>
  \<^verbatim>\<open>str.strip()\<close> removes leading and trailing white space; these are the code points
  below 256 for which \<^verbatim>\<open>str.isspace\<close> holds.
\<close>

definition is_space :: "char \<Rightarrow> bool" where
  "is_space c = (let n = (of_char c :: nat) in
      (9 \<le> n \<and> n \<le> 13) \<or> (28 \<le> n \<and> n \<le> 32) \<or> n = 133 \<or> n = 160)"

definition strip :: "string \<Rightarrow> string" where
  "strip s = rev (dropWhile is_space (rev (dropWhile is_space s)))"

text \<open>\<^verbatim>\<open>v.strip()\<close> on any value: only a str has the method.\<close>

definition val_strip :: "json \<Rightarrow> exn + string" where
  "val_strip v = (case v of JStr s \<Rightarrow> Inr (strip s) | _ \<Rightarrow> Inl AttributeError)"

text \<open>\<^verbatim>\<open>sep.join(parts)\<close>: every part must be a str.\<close>

fun join_strs :: "string \<Rightarrow> json list \<Rightarrow> exn + string" where
  "join_strs sep [] = Inr []"
| "join_strs sep [JStr s] = Inr s"
| "join_strs sep (JStr s # rest) =
     (case join_strs sep rest of Inl e \<Rightarrow> Inl e | Inr t \<Rightarrow> Inr (s @ sep @ t))"
| "join_strs sep (v # rest) = Inl TypeError"

fun intercalate :: "string \<Rightarrow> string list \<Rightarrow> string" where
  "intercalate sep [] = []"
| "intercalate sep [s] = s"
| "intercalate sep (s # rest) = s @ sep @ intercalate sep rest"

text \<open>Decimal digits of an int, as \<^verbatim>\<open>str(n)\<close> prints them.\<close>

function digits :: "nat \<Rightarrow> string" where
  "digits n = (if n < 10 then [char_of (48 + n)] else digits (n div 10) @ [char_of (48 + n mod 10)])"
  by pat_completeness auto
termination
  by (relation "measure id") auto

declare digits.simps [simp del]

definition str_int :: "int \<Rightarrow> string" where
  "str_int i = (if i < 0 then CHR ''-'' # digits (nat (- i)) else digits (nat i))"

section \<open>The library functions the code calls\<close>

text \<open>
  A datetime is its wall-clock reading in microseconds and its UTC offset, if it has
  one. Two aware datetimes compare by their instant.
\<close>

record pydatetime =
  wall :: int
  tzoffset :: "int option"

definition instant :: "pydatetime \<Rightarrow> int" where
  "instant ts = wall ts - (case tzoffset ts of None \<Rightarrow> 0 | Some off \<Rightarrow> off)"

text \<open>
  Functions of the Python library and of the environment that the code calls and that
  are not part of this repository are fields of one record:
  \<^item> \<open>json_loads\<close>: \<^verbatim>\<open>json.loads\<close>, which returns a value or raises: \<^verbatim>\<open>JSONDecodeError\<close>
    for a text that is not JSON, and also \<^verbatim>\<open>ValueError\<close> (an integer of too many digits)
    or \<^verbatim>\<open>RecursionError\<close> (nesting too deep);
  \<^item> \<open>utf8_ignore\<close>: \<^verbatim>\<open>s.encode("utf-8", errors="ignore")\<close>, the bytes of a str, the
    characters that cannot be encoded (lone surrogates) left out;
  \<^item> \<open>encode_str\<close>: how \<^verbatim>\<open>json.dumps(ensure_ascii=False)\<close> writes a str, quotes included;
  \<^item> \<open>float_repr\<close>: how it writes a float;
  \<^item> \<open>py_repr\<close>: \<^verbatim>\<open>str(v)\<close> of a value that is not a str;
  \<^item> \<open>str_upper\<close>: \<^verbatim>\<open>str.upper\<close>;
  \<^item> \<open>fromisoformat\<close>: \<^verbatim>\<open>datetime.fromisoformat\<close>; \<open>None\<close> is \<^verbatim>\<open>ValueError\<close>;
  \<^item> \<open>isoformat\<close>: \<^verbatim>\<open>datetime.isoformat\<close>;
  \<^item> \<open>sha256_hex\<close>: \<^verbatim>\<open>hashlib.sha256(bytes).hexdigest()\<close>;
  \<^item> \<open>tiktoken\<close>: the optional module's \<^verbatim>\<open>get_encoding\<close>; an encoding maps a text to
    its tokens;
  \<^item> \<open>now_iso\<close>: \<^verbatim>\<open>_now_utc().isoformat()\<close> at the n-th reading of the clock;
  \<^item> \<open>files\<close>: \<open>None\<close> for a path that does not exist; otherwise the lines that iterating
    the file yields, and the exception that ends the iteration, if one does (the file
    cannot be opened, or \<^verbatim>\<open>UnicodeDecodeError\<close> at bytes that are not UTF-8);
  \<^item> \<open>label_map\<close>: the label file's content;
  \<^item> \<open>api_key\<close>: the environment variable \<^verbatim>\<open>OPENAI_API_KEY\<close>;
  \<^item> \<open>remote\<close>: what \<^verbatim>\<open>_request_summary\<close> gets from the service for the n-th request with
    a model, a system prompt and a user prompt: an exception or the decoded summary;
  \<^item> \<open>write_fails\<close>: whether writing the JSON file of a record raises;
  \<^item> \<open>markdown_fails\<close>: whether building the Markdown text from the summary, or writing
    the Markdown file, raises;
  \<^item> \<open>history_fails\<close>: whether appending to the history file of a record raises.
\<close>

record env =
  json_loads :: "string \<Rightarrow> exn + json"
  utf8_ignore :: "string \<Rightarrow> nat list"
  encode_str :: "string \<Rightarrow> string"
  float_repr :: "rat \<Rightarrow> string"
  py_repr :: "json \<Rightarrow> string"
  str_upper :: "string \<Rightarrow> string"
  fromisoformat :: "string \<Rightarrow> pydatetime option"
  isoformat :: "pydatetime \<Rightarrow> string"
  sha256_hex :: "nat list \<Rightarrow> string"
  tiktoken :: "(string \<Rightarrow> (string \<Rightarrow> nat list) option) option"
  now_iso :: "nat \<Rightarrow> string"
  files :: "string \<Rightarrow> (string list \<times> exn option) option"
  label_map :: "string \<Rightarrow> string option"
  api_key :: "string option"
  remote :: "nat \<Rightarrow> string \<Rightarrow> string \<Rightarrow> string \<Rightarrow> exn + json"
  write_fails :: "(string \<Rightarrow> json option) \<Rightarrow> exn option"
  markdown_fails :: "json \<Rightarrow> exn option"
  history_fails :: "(string \<Rightarrow> json option) \<Rightarrow> exn option"

text \<open>\<^verbatim>\<open>v.upper()\<close> on any value, and \<^verbatim>\<open>str(v)\<close> as an f-string formats it.\<close>

definition val_upper :: "env \<Rightarrow> json \<Rightarrow> exn + string" where
  "val_upper E v = (case v of JStr s \<Rightarrow> Inr (str_upper E s) | _ \<Rightarrow> Inl AttributeError)"

definition py_str :: "env \<Rightarrow> json \<Rightarrow> string" where
  "py_str E v = (case v of JStr s \<Rightarrow> s | _ \<Rightarrow> py_repr E v)"

section \<open>Rendering a payload\<close>

text \<open>Sequencing of steps that may raise.\<close>

definition seq :: "exn + 'a \<Rightarrow> ('a \<Rightarrow> exn + 'b) \<Rightarrow> exn + 'b" where
  "seq m f = (case m of Inl e \<Rightarrow> Inl e | Inr x \<Rightarrow> f x)"

text \<open>
  \<^verbatim>\<open>_format_json(value)\<close> is \<^verbatim>\<open>json.dumps(value, indent=2, ensure_ascii=False, sort_keys=True)\<close>.
  With an indent, an empty container is written \<^verbatim>\<open>{}\<close> or \<^verbatim>\<open>[]\<close>; the items of any other
  one stand on lines of their own, indented by two spaces for each level, separated by a
  comma, a key and its value by a colon and a space, and the keys of a dict sorted.
\<close>

definition newline_indent :: "nat \<Rightarrow> string" where
  "newline_indent level = CHR 0x0A # replicate (2 * level) CHR '' ''"

fun format_at :: "env \<Rightarrow> nat \<Rightarrow> json \<Rightarrow> string" where
  "format_at E level JNull = ''null''"
| "format_at E level (JBool b) = (if b then ''true'' else ''false'')"
| "format_at E level (JInt i) = str_int i"
| "format_at E level (JFloat r) = float_repr E r"
| "format_at E level (JStr s) = encode_str E s"
| "format_at E level (JArr xs) =
     (if xs = [] then ''[]''
      else ''['' @ newline_indent (level + 1)
           @ intercalate ('','' @ newline_indent (level + 1))
               (map (format_at E (level + 1)) xs)
           @ newline_indent level @ '']'')"
| "format_at E level (JObj kvs) =
     (if kvs = [] then ''{}''
      else ''{'' @ newline_indent (level + 1)
           @ intercalate ('','' @ newline_indent (level + 1))
               (map snd (sort_key fst
                  (map (\<lambda>(k, v). (k, encode_str E k @ '': '' @ format_at E (level + 1) v)) kvs)))
           @ newline_indent level @ ''}'')"

definition format_json :: "env \<Rightarrow> json \<Rightarrow> string" where
  "format_json E v = format_at E 0 v"

text \<open>Iterating over a value with \<^verbatim>\<open>for chunk in v\<close>: a number or a bool is not iterable.\<close>

definition iter_values :: "json \<Rightarrow> exn + json list" where
  "iter_values v =
     (case v of
        JArr xs \<Rightarrow> Inr xs
      | JStr s \<Rightarrow> Inr (map (\<lambda>c. JStr [c]) s)
      | JObj d \<Rightarrow> Inr (map (\<lambda>kv. JStr (fst kv)) d)
      | _ \<Rightarrow> Inl TypeError)"

text \<open>
  \<^verbatim>\<open>chunk.get("text", "")\<close> for every element that is a dict, the others being skipped
  (\<^verbatim>\<open>isinstance(chunk, dict)\<close>).
\<close>

fun dict_texts :: "json list \<Rightarrow> json list" where
  "dict_texts [] = []"
| "dict_texts (JObj d # rest) = dict_get_default d ''text'' (JStr []) # dict_texts rest"
| "dict_texts (v # rest) = dict_texts rest"

text \<open>\<^verbatim>\<open>ptype in {"user_message", "agent_message"}\<close>: a list or a dict cannot be hashed.\<close>

definition in_str_set :: "json \<Rightarrow> string list \<Rightarrow> exn + bool" where
  "in_str_set v names =
     (case v of
        JArr xs \<Rightarrow> Inl TypeError
      | JObj d \<Rightarrow> Inl TypeError
      | JStr s \<Rightarrow> Inr (s \<in> set names)
      | _ \<Rightarrow> Inr False)"

text \<open>\<^verbatim>\<open>{k: v for k, v in payload.items() if k != "type"}\<close>.\<close>

definition without_type :: "(string \<times> json) list \<Rightarrow> json" where
  "without_type payload = JObj (filter (\<lambda>(k, v). k \<noteq> ''type'') payload)"

text \<open>The last lines of \<^verbatim>\<open>_render_payload\<close>, from \<^verbatim>\<open>if content is None\<close> on.\<close>

definition finish :: "string \<Rightarrow> string option \<Rightarrow> (string \<times> string) option" where
  "finish prefix' content =
     (case content of
        None \<Rightarrow> None
      | Some c \<Rightarrow> (let c = strip c in if c = [] then None else Some (prefix', c)))"

definition render_message :: "env \<Rightarrow> (string \<times> json) list \<Rightarrow> exn + (string \<times> string) option" where
  "render_message E payload =
     seq (val_upper E (dict_get_default payload ''role'' (JStr ''unknown''))) (\<lambda>role.
     seq (iter_values (py_or (dict_get payload ''content'') (JArr []))) (\<lambda>chunks.
     seq (join_strs [] (dict_texts chunks)) (\<lambda>joined.
       let content = strip joined
       in if content = [] then Inr None else Inr (finish role (Some content)))))"

definition render_reasoning :: "env \<Rightarrow> (string \<times> json) list \<Rightarrow> exn + (string \<times> string) option" where
  "render_reasoning E payload =
     (let prefix' = ''REASONING'';
          summary = dict_get payload ''summary''
      in seq (case summary of
                JArr items \<Rightarrow>
                  seq (join_strs [CHR 0x0A] (dict_texts items)) (\<lambda>joined. Inr (Some (strip joined)))
              | JObj d \<Rightarrow>
                  seq (val_strip (dict_get_default d ''text'' (JStr []))) (\<lambda>s. Inr (Some s))
              | _ \<Rightarrow> Inr None)
           (\<lambda>content.
              let content =
                    (if content = None \<or> content = Some []
                     then (let enc = dict_get payload ''encrypted_content''
                           in if truthy enc then Some ''<encrypted reasoning content>''
                              else content)
                     else content)
              in Inr (finish prefix' content)))"

definition render_function_call :: "env \<Rightarrow> (string \<times> json) list \<Rightarrow> exn + (string \<times> string) option" where
  "render_function_call E payload =
     (let name = dict_get_default payload ''name'' (JStr []);
          prefix' = strip (''FUNCTION_CALL '' @ py_str E name);
          arguments = dict_get payload ''arguments'';
          content =
            (case arguments of
               JStr s \<Rightarrow>
                 (case json_loads E s of
                    Inr parsed \<Rightarrow> Inr (format_json E parsed)
                  | Inl exc \<Rightarrow> if exc = JSONDecodeError then Inr s else Inl exc)
             | _ \<Rightarrow> Inr (format_json E arguments))
      in seq content (\<lambda>content. Inr (finish prefix' (Some content))))"

definition render_function_call_output ::
    "env \<Rightarrow> (string \<times> json) list \<Rightarrow> exn + (string \<times> string) option" where
  "render_function_call_output E payload =
     (let call_id = dict_get_default payload ''call_id'' (JStr []);
          prefix' = strip (''FUNCTION_OUTPUT '' @ py_str E call_id);
          output = dict_get payload ''output'';
          content =
            (case output of
               JObj d \<Rightarrow> format_json E output
             | JArr xs \<Rightarrow> format_json E output
             | _ \<Rightarrow> strip (py_str E (py_or output (JStr []))))
      in Inr (finish prefix' (Some content)))"

text \<open>The kinds that \<^verbatim>\<open>_render_payload\<close> has a branch for.\<close>

definition known_kinds :: "string list" where
  "known_kinds =
     [''message'', ''user_message'', ''agent_message'', ''agent_reasoning'', ''reasoning'',
      ''function_call'', ''function_call_output'', ''token_count'', ''turn_aborted'',
      ''event_msg'']"

definition render_payload :: "env \<Rightarrow> (string \<times> json) list \<Rightarrow> exn + (string \<times> string) option" where
  "render_payload E payload =
     (let ptype = dict_get payload ''type''
      in if ptype = JStr ''message'' then render_message E payload
         else seq (in_str_set ptype [''user_message'', ''agent_message'']) (\<lambda>is_message.
           if is_message then
             seq (val_upper E ptype) (\<lambda>prefix'.
             seq (val_strip (dict_get_default payload ''message'' (JStr []))) (\<lambda>content.
               Inr (finish prefix' (Some content))))
           else if ptype = JStr ''agent_reasoning'' then
             seq (val_strip (dict_get_default payload ''text'' (JStr []))) (\<lambda>content.
               Inr (finish ''AGENT_REASONING'' (Some content)))
           else if ptype = JStr ''reasoning'' then render_reasoning E payload
           else if ptype = JStr ''function_call'' then render_function_call E payload
           else if ptype = JStr ''function_call_output'' then render_function_call_output E payload
           else if ptype = JStr ''token_count'' then
             Inr (finish ''TOKEN_COUNT''
                    (Some (format_json E
                       (JObj [(''info'', dict_get payload ''info''),
                              (''rate_limits'', dict_get payload ''rate_limits'')]))))
           else if ptype = JStr ''turn_aborted'' then
             Inr (finish ''TURN_ABORTED'' (Some (format_json E (without_type payload))))
           else if ptype = JStr ''event_msg'' then
             Inr (finish ''EVENT'' (Some (format_json E (without_type payload))))
           else
             seq (val_upper E (py_or ptype (JStr ''UNKNOWN''))) (\<lambda>prefix'.
               Inr (finish prefix' (Some (format_json E (without_type payload)))))))"

section \<open>Token counting\<close>

text \<open>
  \<^verbatim>\<open>TokenCounter\<close> holds an optional encoder. With an encoder the count of a text is the
  number of tokens the encoder returns; without one it is \<^verbatim>\<open>max(1, len(text) // 4)\<close>.
\<close>

record token_counter =
  encoder :: "(string \<Rightarrow> nat list) option"

fun first_encoding :: "(string \<Rightarrow> (string \<Rightarrow> nat list) option) \<Rightarrow> string list
    \<Rightarrow> (string \<Rightarrow> nat list) option" where
  "first_encoding get_encoding [] = None"
| "first_encoding get_encoding (name # names) =
     (case get_encoding name of
        Some enc \<Rightarrow> Some enc
      | None \<Rightarrow> first_encoding get_encoding names)"

definition TokenCounter_init :: "env \<Rightarrow> token_counter" where
  "TokenCounter_init E =
     (case tiktoken E of
        None \<Rightarrow> \<lparr>encoder = None\<rparr>
      | Some get_encoding \<Rightarrow>
          \<lparr>encoder = first_encoding get_encoding [''o200k_base'', ''cl100k_base'']\<rparr>)"

definition count :: "token_counter \<Rightarrow> string \<Rightarrow> int" where
  "count counter txt =
     (case encoder counter of
        Some enc \<Rightarrow> int (length (enc txt))
      | None \<Rightarrow> max 1 (int (length txt) div 4))"

definition precise :: "token_counter \<Rightarrow> bool" where
  "precise counter = (encoder counter \<noteq> None)"

section \<open>Reading a transcript\<close>

record segment =
  header :: string
  text' :: string
  combined :: string
  payload_type :: json
  timestamp :: "string option"

text \<open>\<^verbatim>\<open>raw.replace("Z", "+00:00")\<close>.\<close>

definition replace_Z :: "string \<Rightarrow> string" where
  "replace_Z s = concat (map (\<lambda>c. if c = CHR ''Z'' then ''+00:00'' else [c]) s)"

definition parse_timestamp :: "env \<Rightarrow> json \<Rightarrow> exn + pydatetime option" where
  "parse_timestamp E raw =
     (if \<not> truthy raw then Inr None
      else case raw of
        JStr s \<Rightarrow>
          (let cleaned = replace_Z s
           in case fromisoformat E cleaned of
                None \<Rightarrow> Inr None
              | Some ts \<Rightarrow>
                  Inr (Some (if tzoffset ts = None then ts\<lparr>tzoffset := Some 0\<rparr> else ts)))
      | _ \<Rightarrow> Inl AttributeError)"

text \<open>
  The three \<^verbatim>\<open>digest.update\<close> calls for one segment, and the bytes a sequence of
  \<^verbatim>\<open>(header, text)\<close> pairs feeds to the digest.
\<close>

definition feed_segment :: "env \<Rightarrow> string \<times> string \<Rightarrow> nat list" where
  "feed_segment E ht = utf8_ignore E (fst ht) @ [0] @ utf8_ignore E (snd ht)"

definition digest_input :: "env \<Rightarrow> (string \<times> string) list \<Rightarrow> nat list" where
  "digest_input E pairs = concat (map (feed_segment E) pairs)"

text \<open>The \<^verbatim>\<open>(header, text)\<close> pairs of a list of segments.\<close>

definition pairs_of :: "segment list \<Rightarrow> (string \<times> string) list" where
  "pairs_of segs = map (\<lambda>s. (header s, text' s)) segs"

text \<open>
  One turn of the loop of \<^verbatim>\<open>_collect_segments\<close>, on the segments, the latest timestamp and
  the bytes given to the digest so far.
\<close>

type_synonym collect_state = "segment list \<times> pydatetime option \<times> nat list"

definition collect_line :: "env \<Rightarrow> string \<Rightarrow> collect_state \<Rightarrow> exn + collect_state" where
  "collect_line E raw st =
     (case st of (segments, latest_ts, digest) \<Rightarrow>
      (case json_loads E raw of
        Inl exc \<Rightarrow> if exc = JSONDecodeError then Inr (segments, latest_ts, digest) else Inl exc
      | Inr data \<Rightarrow>
          seq (obj_get data ''payload'') (\<lambda>p.
          seq (obj_get (py_or p (JObj [])) ''type'') (\<lambda>ptype.
            case py_or p (JObj []) of
              JObj payload \<Rightarrow>
                seq (seq (obj_get data ''timestamp'') (\<lambda>outer.
                       parse_timestamp E (py_or (dict_get payload ''timestamp'') outer))) (\<lambda>ts.
                let latest_ts =
                      (case ts of
                         None \<Rightarrow> latest_ts
                       | Some t \<Rightarrow>
                           (case latest_ts of
                              None \<Rightarrow> Some t
                            | Some l \<Rightarrow> if instant t > instant l then Some t else Some l))
                in seq (render_payload E payload) (\<lambda>rendered.
                     case rendered of
                       None \<Rightarrow> Inr (segments, latest_ts, digest)
                     | Some (hdr, txt) \<Rightarrow>
                         Inr (segments @
                                [\<lparr>header = hdr, text' = txt,
                                  combined = hdr @ '':'' @ [CHR 0x0A] @ strip txt,
                                  payload_type = ptype,
                                  timestamp = map_option (isoformat E) ts\<rparr>],
                              latest_ts,
                              digest @ feed_segment E (hdr, txt))))
            | _ \<Rightarrow> Inl AttributeError))))"

fun collect_lines :: "env \<Rightarrow> string list \<Rightarrow> collect_state \<Rightarrow> exn + collect_state" where
  "collect_lines E [] st = Inr st"
| "collect_lines E (raw # rest) st = seq (collect_line E raw st) (collect_lines E rest)"

text \<open>
  \<^verbatim>\<open>_collect_segments(path)\<close>: opening a path that does not exist raises; the loop runs
  over the lines of the file; the result is the segments, the latest timestamp and the
  hexadecimal digest. When iterating the file ends with an exception, the lines read
  before it have gone through the loop and the exception leaves the function.
\<close>

definition collect_from_lines ::
    "env \<Rightarrow> string list \<Rightarrow> exn + (segment list \<times> pydatetime option \<times> string)" where
  "collect_from_lines E lines =
     seq (collect_lines E lines ([], None, [])) (\<lambda>(segments, latest_ts, digest).
       Inr (segments, latest_ts, sha256_hex E digest))"

definition collect_segments ::
    "env \<Rightarrow> string \<Rightarrow> exn + (segment list \<times> pydatetime option \<times> string)" where
  "collect_segments E path =
     (case files E path of
        None \<Rightarrow> Inl OSError
      | Some (lines, None) \<Rightarrow> collect_from_lines E lines
      | Some (lines, Some exc) \<Rightarrow> seq (collect_lines E lines ([], None, [])) (\<lambda>st. Inl exc))"

section \<open>The budget trimmer\<close>

abbreviation seg_tokens :: "token_counter \<Rightarrow> segment \<Rightarrow> int" where
  "seg_tokens counter seg \<equiv> count counter (combined seg)"

text \<open>
  The first loop of \<^verbatim>\<open>_trim_segments\<close>:
  \<^verbatim>\<open>while start_index < len(segments) - 1 and running > max_tokens\<close>.
  The guard keeps \<^verbatim>\<open>start_index\<close> inside \<^verbatim>\<open>token_counts\<close>.
\<close>

function cut_loop :: "int list \<Rightarrow> nat \<Rightarrow> int \<Rightarrow> nat \<Rightarrow> int \<Rightarrow> nat \<times> int" where
  "cut_loop token_counts n max_tokens start_index running =
     (if int start_index < int n - 1 \<and> running > max_tokens
      then cut_loop token_counts n max_tokens (start_index + 1)
             (running - token_counts ! start_index)
      else (start_index, running))"
  by pat_completeness auto
termination
  by (relation "measure (\<lambda>(token_counts, n, max_tokens, start_index, running). n - start_index)")
     auto

declare cut_loop.simps [simp del]

text \<open>
  The second loop:
  \<^verbatim>\<open>while len(trimmed) > 1 and trimmed_tokens > max_tokens\<close>, popping the front.
\<close>

fun safety_pass :: "token_counter \<Rightarrow> int \<Rightarrow> segment list \<Rightarrow> int \<Rightarrow> segment list \<times> int" where
  "safety_pass counter max_tokens (removed # seg # rest) trimmed_tokens =
     (if trimmed_tokens > max_tokens
      then safety_pass counter max_tokens (seg # rest)
             (trimmed_tokens - seg_tokens counter removed)
      else (removed # seg # rest, trimmed_tokens))"
| "safety_pass counter max_tokens trimmed trimmed_tokens = (trimmed, trimmed_tokens)"

definition trim_segments ::
    "segment list \<Rightarrow> int \<Rightarrow> token_counter \<Rightarrow> segment list \<times> bool \<times> int" where
  "trim_segments segments max_tokens counter =
     (if segments = [] then (segments, False, 0)
      else if max_tokens \<le> 0
        then (segments, False, sum_list (map (seg_tokens counter) segments))
      else
        let token_counts = map (seg_tokens counter) segments;
            total_tokens = sum_list token_counts
        in if total_tokens \<le> max_tokens then (segments, False, total_tokens)
           else
             let truncated = True;
                 (start_index, running) =
                    cut_loop token_counts (length segments) max_tokens 0 total_tokens;
                 trimmed = drop start_index segments;
                 trimmed_tokens = sum_list (map (seg_tokens counter) trimmed);
                 (trimmed, trimmed_tokens) =
                    (if trimmed = []
                     then ([last segments], seg_tokens counter (last segments))
                     else (trimmed, trimmed_tokens));
                 (trimmed, trimmed_tokens) =
                    safety_pass counter max_tokens trimmed trimmed_tokens
             in (trimmed, truncated, trimmed_tokens))"

section \<open>Session identity\<close>

text \<open>\<^verbatim>\<open>s.split(sep)\<close> for a separator of one character.\<close>

fun split_on :: "char \<Rightarrow> string \<Rightarrow> string list" where
  "split_on sep [] = [[]]"
| "split_on sep (c # cs) =
     (if c = sep then [] # split_on sep cs
      else (case split_on sep cs of
              [] \<Rightarrow> [[c]]
            | p # ps \<Rightarrow> (c # p) # ps))"

text \<open>
  A path is kept as its text, \<^verbatim>\<open>str(path)\<close>. A \<^verbatim>\<open>pathlib\<close> path keeps the components of
  its text that are neither empty nor \<^verbatim>\<open>.\<close>, so a trailing slash is dropped. \<^verbatim>\<open>path.name\<close> is the last component, the empty
  string when there is none, and \<^verbatim>\<open>path.stem\<close> the name without its last suffix: with
  \<^verbatim>\<open>i = name.rfind(".")\<close>, the name up to \<^verbatim>\<open>i\<close> when \<^verbatim>\<open>0 < i < len(name) - 1\<close> and the
  whole name otherwise.
\<close>

definition path_parts :: "string \<Rightarrow> string list" where
  "path_parts path = filter (\<lambda>part. part \<noteq> [] \<and> part \<noteq> ''.'') (split_on CHR ''/'' path)"

definition path_name :: "string \<Rightarrow> string" where
  "path_name path = (case rev (path_parts path) of [] \<Rightarrow> [] | name # _ \<Rightarrow> name)"

definition rfind :: "char \<Rightarrow> string \<Rightarrow> int" where
  "rfind c s =
     (if c \<in> set s then int (length s) - 1 - int (length (takeWhile (\<lambda>x. x \<noteq> c) (rev s)))
      else - 1)"

definition path_stem :: "string \<Rightarrow> string" where
  "path_stem path =
     (let name = path_name path; i = rfind CHR ''.'' name
      in if 0 < i \<and> i < int (length name) - 1 then take (nat i) name else name)"

definition derive_session_id :: "string \<Rightarrow> string" where
  "derive_session_id path =
     (let stem = path_stem path;
          parts = split_on CHR ''-'' stem
      in if length parts \<ge> 5
         then (let tail = drop (length parts - 5) parts
               in if list_all (\<lambda>p. p \<noteq> []) tail then intercalate ''-'' tail else stem)
         else stem)"

section \<open>Summarizing one session\<close>

text \<open>
  What the program does to the outside is kept in a record that every step passes on:
  the number of requests sent to the remote service, the number of readings of the
  clock, the module's flag \<^verbatim>\<open>_TOKEN_WARNING_EMITTED\<close>, the files written and the lines
  printed, in order.
\<close>

datatype event =
    TokenWarning
  | Warn string exn
  | Refreshed string string json
  | UpToDate

record world =
  requests :: nat
  clock_reads :: nat
  token_warning_emitted :: bool
  written :: "string list"
  printed :: "event list"

type_synonym pydict = "string \<Rightarrow> json option"

definition opt_str :: "string option \<Rightarrow> json" where
  "opt_str v = (case v of None \<Rightarrow> JNull | Some s \<Rightarrow> JStr s)"

definition rec_get :: "pydict \<Rightarrow> string \<Rightarrow> json" where
  "rec_get d key = (case d key of None \<Rightarrow> JNull | Some v \<Rightarrow> v)"

definition build_user_prompt ::
    "string \<Rightarrow> string option \<Rightarrow> bool \<Rightarrow> int \<Rightarrow> nat \<Rightarrow> nat \<Rightarrow> string option \<Rightarrow> string \<Rightarrow> string" where
  "build_user_prompt session_id label truncated kept_tokens total_segments kept_segments
       latest_iso combined_text =
     intercalate [CHR 0x0A]
       ([''Session ID: '' @ session_id]
        @ (case label of None \<Rightarrow> [] | Some l \<Rightarrow> if l = [] then [] else [''Label: '' @ l])
        @ (case latest_iso of None \<Rightarrow> [] | Some t \<Rightarrow> [''Latest message: '' @ t])
        @ (if truncated
           then [''NOTE: Transcript truncated to the most recent '' @ str_int (int kept_segments)
                 @ '' of '' @ str_int (int total_segments) @ '' segments (~''
                 @ str_int kept_tokens @ '' tokens).'']
           else [])
        @ [[], ''Transcript:'', combined_text])"

definition system_prompt :: string where
  "system_prompt =
     ''You are an assistant that summarizes Codex CLI sessions. ''
     @ ''Produce a concise narrative plus structured key actions, files, concerns, ''
     @ ''and concrete follow-ups. Limit key_actions to the top 6 items and files_touched to the top 10 paths. ''
     @ ''Always obey the supplied JSON schema, using empty arrays when appropriate.''"

text \<open>
  \<^verbatim>\<open>_request_summary\<close>: without an API key it raises before anything is sent; otherwise
  one request goes out and the service's answer, or the exception it leads to, comes back.
\<close>

definition request_summary ::
    "env \<Rightarrow> string \<Rightarrow> string \<Rightarrow> string \<Rightarrow> world \<Rightarrow> world \<times> (exn + json)" where
  "request_summary E model sys_prompt user_prompt w =
     (if api_key E = None \<or> api_key E = Some []
      then (w, Inl (RuntimeError ''Set OPENAI_API_KEY to summarize conversations.''))
      else (w\<lparr>requests := requests w + 1\<rparr>, remote E (requests w) model sys_prompt user_prompt))"

text \<open>
  \<^verbatim>\<open>_write_summary\<close>: the record is the seven fields followed by the fields of the summary
  (\<^verbatim>\<open>**summary_payload\<close>, which must be a dict and wins where a key occurs twice); then the
  JSON file is written, the Markdown text is built from the summary, and the Markdown
  file is written. An exception while the Markdown text is built leaves the JSON file
  written.
\<close>

definition write_summary ::
    "env \<Rightarrow> string \<Rightarrow> string option \<Rightarrow> string \<Rightarrow> bool \<Rightarrow> int \<Rightarrow> string \<Rightarrow> json \<Rightarrow> string
       \<Rightarrow> world \<Rightarrow> world \<times> (exn + (string \<times> string \<times> pydict))" where
  "write_summary E session_id label model truncated kept_tokens original_digest summary_payload
       summary_dir w =
     (let generated_at = now_iso E (clock_reads w);
          w = w\<lparr>clock_reads := clock_reads w + 1\<rparr>
      in case summary_payload of
           JObj payload \<Rightarrow>
             (let record =
                    [''session_id'' \<mapsto> JStr session_id,
                     ''label'' \<mapsto> opt_str label,
                     ''generated_at'' \<mapsto> JStr generated_at,
                     ''model'' \<mapsto> JStr model,
                     ''truncated'' \<mapsto> JBool truncated,
                     ''kept_tokens'' \<mapsto> JInt kept_tokens,
                     ''digest'' \<mapsto> JStr original_digest] ++ map_of payload;
                  json_path = summary_dir @ ''/'' @ session_id @ ''.json'';
                  md_path = summary_dir @ ''/'' @ session_id @ ''.md''
              in case write_fails E record of
                   Some e \<Rightarrow> (w, Inl e)
                 | None \<Rightarrow>
                     (let w = w\<lparr>written := written w @ [json_path]\<rparr>
                      in case markdown_fails E summary_payload of
                           Some e \<Rightarrow> (w, Inl e)
                         | None \<Rightarrow>
                             (w\<lparr>written := written w @ [md_path]\<rparr>,
                              Inr (json_path, md_path, record))))
         | _ \<Rightarrow> (w, Inl TypeError))"

definition append_history ::
    "env \<Rightarrow> string \<Rightarrow> pydict \<Rightarrow> world \<Rightarrow> world \<times> (exn + string)" where
  "append_history E summary_dir record w =
     (let history_path = summary_dir @ ''/'' @ py_str E (rec_get record ''session_id'')
                           @ ''.history.md'';
          w = w\<lparr>clock_reads := clock_reads w + 1\<rparr>
      in case history_fails E record of
           Some e \<Rightarrow> (w, Inl e)
         | None \<Rightarrow> (w\<lparr>written := written w @ [history_path]\<rparr>, Inr history_path))"

definition summarize_session ::
    "env \<Rightarrow> string \<Rightarrow> string option \<Rightarrow> string \<Rightarrow> int \<Rightarrow> string \<Rightarrow> world
       \<Rightarrow> world \<times> (exn + (string \<times> string \<times> pydict))" where
  "summarize_session E path label model max_tokens summary_dir w =
     (if files E path = None then (w, Inl (RuntimeError (''Session file not found: '' @ path)))
      else
        let session_id = derive_session_id path;
            label = (if label = None \<or> label = Some [] then label_map E path else label)
        in case collect_segments E path of
             Inl e \<Rightarrow> (w, Inl e)
           | Inr (segments, latest_ts, digest) \<Rightarrow>
               if segments = [] then (w, Inl (RuntimeError ''No message content found in session.''))
               else
                 let counter = TokenCounter_init E;
                     w = (if \<not> precise counter \<and> \<not> token_warning_emitted w
                          then w\<lparr>printed := printed w @ [TokenWarning],
                                 token_warning_emitted := True\<rparr>
                          else w);
                     (trimmed_segments, truncated, kept_tokens) =
                        trim_segments segments max_tokens counter;
                     combined_text =
                        intercalate [CHR 0x0A, CHR 0x0A] (map combined trimmed_segments);
                     latest_iso = map_option (isoformat E) latest_ts;
                     user_prompt =
                        build_user_prompt session_id label truncated kept_tokens
                          (length segments) (length trimmed_segments) latest_iso combined_text
                 in (case request_summary E model system_prompt user_prompt w of
                      (w, Inl e) \<Rightarrow> (w, Inl e)
                    | (w, Inr summary_payload) \<Rightarrow>
                        (case write_summary E session_id label model truncated kept_tokens
                                digest summary_payload summary_dir w of
                           (w, Inl e) \<Rightarrow> (w, Inl e)
                         | (w, Inr (json_path, md_path, record)) \<Rightarrow>
                             let record = record(''session_path'' \<mapsto> JStr path,
                                                 ''latest_timestamp'' \<mapsto> opt_str latest_iso);
                                 record = (if \<not> precise counter
                                           then record(''token_counter'' \<mapsto> JStr ''approximate'')
                                           else record)
                             in (case append_history E summary_dir record w of
                                  (w, Inl e) \<Rightarrow> (w, Inl e)
                                | (w, Inr history_path) \<Rightarrow>
                                    (w, Inr (json_path, md_path,
                                             record(''history_path'' \<mapsto> JStr history_path)))))))"

section \<open>Refreshing all summaries\<close>

type_synonym index = "string \<Rightarrow> pydict option"

text \<open>\<^verbatim>\<open>if limit: sessions = sessions[-limit:]\<close>.\<close>

definition apply_limit :: "int option \<Rightarrow> 'a list \<Rightarrow> 'a list" where
  "apply_limit limit sessions =
     (case limit of
        None \<Rightarrow> sessions
      | Some n \<Rightarrow>
          if n = 0 then sessions
          else if n > 0 then drop (length sessions - nat n) sessions
          else drop (nat (- n)) sessions)"

text \<open>
  The first loop of \<^verbatim>\<open>refresh_summaries\<close> chooses the transcripts to process. It reads
  every transcript that has an entry again, outside any \<^verbatim>\<open>try\<close>: an exception there ends
  the whole function.
\<close>

fun select_stale :: "env \<Rightarrow> index \<Rightarrow> bool \<Rightarrow> string list \<Rightarrow> exn + string list" where
  "select_stale E index_data force [] = Inr []"
| "select_stale E index_data force (path # rest) =
     (let session_id = derive_session_id path
      in case (if force then None else index_data session_id) of
           None \<Rightarrow> seq (select_stale E index_data force rest) (\<lambda>to_process. Inr (path # to_process))
         | Some entry \<Rightarrow>
             (let recorded_digest = rec_get entry ''digest'';
                  recorded_mtime = rec_get entry ''latest_timestamp''
              in seq (collect_segments E path) (\<lambda>(segments, latest_ts, digest).
                   if segments = [] then select_stale E index_data force rest
                   else
                     let latest_iso = opt_str (map_option (isoformat E) latest_ts)
                     in if JStr digest \<noteq> recorded_digest \<or> latest_iso \<noteq> recorded_mtime
                        then seq (select_stale E index_data force rest)
                               (\<lambda>to_process. Inr (path # to_process))
                        else select_stale E index_data force rest)))"

text \<open>
  The second loop summarizes each chosen transcript inside \<^verbatim>\<open>try\<close>: a failure prints a
  warning and the loop goes on; a success stamps the record and stores it in the index
  under the session identity.
\<close>

fun process_all ::
    "env \<Rightarrow> string \<Rightarrow> int \<Rightarrow> string \<Rightarrow> string list \<Rightarrow> world \<times> index \<Rightarrow> world \<times> index" where
  "process_all E model max_tokens summary_dir [] st = st"
| "process_all E model max_tokens summary_dir (path # rest) (w, index_data) =
     (let session_id = derive_session_id path
      in case summarize_session E path None model max_tokens summary_dir w of
           (w, Inl exc) \<Rightarrow>
             process_all E model max_tokens summary_dir rest
               (w\<lparr>printed := printed w @ [Warn (path_name path) exc]\<rparr>, index_data)
         | (w, Inr (json_path, md_path, record)) \<Rightarrow>
             (let record = record(''summarized_at'' \<mapsto> JStr (now_iso E (clock_reads w)));
                  w = w\<lparr>clock_reads := clock_reads w + 1\<rparr>;
                  index_data = index_data(session_id \<mapsto> record);
                  w = w\<lparr>printed := printed w
                         @ [Refreshed session_id md_path (rec_get record ''history_path'')]\<rparr>
              in process_all E model max_tokens summary_dir rest (w, index_data)))"

text \<open>
  \<^verbatim>\<open>refresh_summaries\<close>, from the loaded index and the transcripts found, sorted by
  modification time. The result is the state of the outside and the index written to
  the index file, \<open>None\<close> when the function returns without writing it.
\<close>

definition refresh_summaries ::
    "env \<Rightarrow> string list \<Rightarrow> string \<Rightarrow> index \<Rightarrow> string \<Rightarrow> int \<Rightarrow> int option \<Rightarrow> bool \<Rightarrow> world
       \<Rightarrow> exn + (world \<times> index option)" where
  "refresh_summaries E found summary_dir index_data model max_tokens limit force w =
     (let sessions = apply_limit limit found
      in seq (select_stale E index_data force sessions) (\<lambda>to_process.
           if to_process = [] then Inr (w\<lparr>printed := printed w @ [UpToDate]\<rparr>, None)
           else
             case process_all E model max_tokens summary_dir to_process (w, index_data) of
               (w, index_data) \<Rightarrow> Inr (w, Some index_data)))"

text \<open>
  What the second loop prints for one transcript: a warning with the file's name, or the
  line that reports the refreshed summary of its session identity.
\<close>

definition outcome_of :: "string \<Rightarrow> event \<Rightarrow> bool" where
  "outcome_of path ev =
     (case ev of
        Warn name exc \<Rightarrow> name = path_name path
      | Refreshed session_id md_path history_path \<Rightarrow> session_id = derive_session_id path
      | _ \<Rightarrow> False)"


text \<open>
  A transcript that the first loop passes over: its session identity has an entry, the
  transcript can be read, and it has no segments or its digest and latest timestamp are
  the recorded ones.
\<close>

definition up_to_date :: "env \<Rightarrow> index \<Rightarrow> string \<Rightarrow> bool" where
  "up_to_date E index_data path =
     (case index_data (derive_session_id path) of
        None \<Rightarrow> False
      | Some entry \<Rightarrow>
          (case collect_segments E path of
             Inl e \<Rightarrow> False
           | Inr (segments, latest_ts, digest) \<Rightarrow>
               segments = []
               \<or> (JStr digest = rec_get entry ''digest''
                  \<and> opt_str (map_option (isoformat E) latest_ts)
                      = rec_get entry ''latest_timestamp'')))"

section \<open>Concrete inputs\<close>

text \<open>
  Inputs on which the definitions are run below. The counter is the fallback counter
  (no \<^verbatim>\<open>tiktoken\<close>); a segment is built as \<^verbatim>\<open>_collect_segments\<close> builds it. The three
  segments have 5, 3 and 2 tokens.
\<close>

definition demo_counter :: token_counter where
  "demo_counter = \<lparr>encoder = None\<rparr>"

definition demo_segment :: "string \<Rightarrow> string \<Rightarrow> segment" where
  "demo_segment hdr txt =
     \<lparr>header = hdr, text' = txt, combined = hdr @ '':'' @ [CHR 0x0A] @ strip txt,
      payload_type = JStr ''message'', timestamp = None\<rparr>"

definition seg5 :: segment where
  "seg5 = demo_segment ''USER'' ''list the files''"

definition seg3 :: segment where
  "seg3 = demo_segment ''ASSISTANT'' ''done''"

definition seg2 :: segment where
  "seg2 = demo_segment ''USER'' ''ok''"

text \<open>
  A line of a transcript that holds one chat message, and the value \<^verbatim>\<open>json.loads\<close>
  returns for it.
\<close>

definition msg_line :: "string \<Rightarrow> string \<Rightarrow> string" where
  \<open>msg_line role txt =
     ''{"payload": {"type": "message", "role": "'' @ role
     @ ''", "content": [{"text": "'' @ txt @ ''"}]}}'' @ [CHR 0x0A]\<close>

definition msg_json :: "string \<Rightarrow> string \<Rightarrow> json" where
  "msg_json role txt =
     JObj [(''payload'',
            JObj [(''type'', JStr ''message''), (''role'', JStr role),
                  (''content'', JArr [JObj [(''text'', JStr txt)]])])]"

definition number_line :: string where
  "number_line = ''42'' @ [CHR 0x0A]"

definition broken_line :: string where
  \<open>broken_line = ''{"payload": {"type": "mess'' @ [CHR 0x0A]\<close>

definition custom_line :: string where
  \<open>custom_line = ''{"payload": {"type": "custom_event", "x": 1}}'' @ [CHR 0x0A]\<close>

definition numeric_kind_line :: string where
  \<open>numeric_kind_line = ''{"payload": {"type": 5, "x": 1}}'' @ [CHR 0x0A]\<close>

definition numeric_kind_payload :: "(string \<times> json) list" where
  "numeric_kind_payload = [(''type'', JInt 5), (''x'', JInt 1)]"

definition custom_payload :: "(string \<times> json) list" where
  "custom_payload = [(''type'', JStr ''custom_event''), (''x'', JInt 1)]"

text \<open>
  \<^verbatim>\<open>json.loads\<close> on the lines used below; every other line used below is not JSON.
\<close>

definition demo_loads :: "string \<Rightarrow> exn + json" where
  "demo_loads raw =
     (if raw = msg_line ''A'' ''BC'' then Inr (msg_json ''A'' ''BC'')
      else if raw = msg_line ''D'' ''E'' then Inr (msg_json ''D'' ''E'')
      else if raw = msg_line ''A'' ''B'' then Inr (msg_json ''A'' ''B'')
      else if raw = msg_line ''CD'' ''E'' then Inr (msg_json ''CD'' ''E'')
      else if raw = number_line then Inr (JInt 42)
      else if raw = custom_line then Inr (JObj [(''payload'', JObj custom_payload)])
      else if raw = numeric_kind_line then Inr (JObj [(''payload'', JObj numeric_kind_payload)])
      else Inl JSONDecodeError)"

text \<open>
  The bytes of the strings used below, all of them made of code points below 256, none
  of which the encoder leaves out: one byte below 128, two bytes from 128 on.
\<close>

definition utf8_char :: "char \<Rightarrow> nat list" where
  "utf8_char c = (let n = (of_char c :: nat)
                  in if n < 128 then [n] else [192 + n div 64, 128 + n mod 64])"

definition utf8_encode :: "string \<Rightarrow> nat list" where
  "utf8_encode s = concat (map utf8_char s)"

text \<open>\<^verbatim>\<open>str.upper\<close> on ASCII letters.\<close>

definition ascii_upper :: "string \<Rightarrow> string" where
  "ascii_upper s =
     map (\<lambda>c. if CHR ''a'' \<le> c \<and> c \<le> CHR ''z'' then char_of (of_char c - (32::nat)) else c) s"

text \<open>
  The transcripts on disk. Some of them have the same file name in different
  directories.
\<close>

definition demo_files :: "string \<Rightarrow> (string list \<times> exn option) option" where
  "demo_files path =
     (if path = ''sessions/a/s1.jsonl''
        then Some ([msg_line ''A'' ''BC'', msg_line ''D'' ''E''], None)
      else if path = ''sessions/b/s1.jsonl''
        then Some ([msg_line ''A'' ''B'', msg_line ''CD'' ''E''], None)
      else if path = ''sessions/a/s2.jsonl'' then Some ([broken_line], None)
      else if path = ''sessions/b/s2.jsonl'' then Some ([msg_line ''A'' ''BC''], None)
      else if path = ''sessions/c/s2.jsonl'' then Some ([msg_line ''D'' ''E''], None)
      else if path = ''sessions/s3.jsonl'' then Some ([msg_line ''A'' ''BC'', number_line], None)
      else if path = ''sessions/s4.jsonl''
        then Some ([msg_line ''A'' ''BC'', numeric_kind_line], None)
      else None)"

definition demo_summary :: json where
  "demo_summary =
     JObj [(''summary'', JStr ''listed files''), (''key_actions'', JArr []),
           (''files_touched'', JArr []), (''concerns'', JArr []), (''follow_up'', JArr [])]"

text \<open>
  An environment: the stand-in for the hexadecimal digest writes each byte as a
  character, so it is injective; the remote service always answers with the same
  summary; nothing fails on writing.
\<close>

definition demo_env :: env where
  "demo_env =
     \<lparr>json_loads = demo_loads,
      utf8_ignore = utf8_encode,
      encode_str = (\<lambda>s. [CHR 0x22] @ s @ [CHR 0x22]),
      float_repr = (\<lambda>r. ''0.0''),
      py_repr = (\<lambda>v. ''None''),
      str_upper = ascii_upper,
      fromisoformat = (\<lambda>s. None),
      isoformat = (\<lambda>t. []),
      sha256_hex = map char_of,
      tiktoken = None,
      now_iso = (\<lambda>n. ''T'' @ replicate n CHR ''+''),
      files = demo_files,
      label_map = (\<lambda>p. None),
      api_key = Some ''key'',
      remote = (\<lambda>n model sys_prompt user_prompt. Inr demo_summary),
      write_fails = (\<lambda>r. None),
      markdown_fails = (\<lambda>s. None),
      history_fails = (\<lambda>r. None)\<rparr>"

text \<open>
  The same environment with a service that fails on the first request only.
\<close>

definition flaky_env :: env where
  "flaky_env =
     demo_env\<lparr>remote := (\<lambda>n model sys_prompt user_prompt.
                  if n = 0 then Inl (RuntimeError ''OpenAI API error (500)'')
                  else Inr demo_summary)\<rparr>"

definition world0 :: world where
  "world0 = \<lparr>requests = 0, clock_reads = 0, token_warning_emitted = False,
             written = [], printed = []\<rparr>"


text \<open>
  The same environment with a service whose answer has a field named \<^verbatim>\<open>digest\<close>.
\<close>

definition echo_env :: env where
  "echo_env =
     demo_env\<lparr>remote := (\<lambda>n model sys_prompt user_prompt.
                  Inr (JObj [(''summary'', JStr ''listed files''),
                             (''digest'', JStr ''unchanged'')]))\<rparr>"

text \<open>Whether an index has an entry for a session identity.\<close>

definition has_entry :: "index \<Rightarrow> string \<Rightarrow> bool" where
  "has_entry index_data session_id =
     (case index_data session_id of None \<Rightarrow> False | Some entry \<Rightarrow> True)"

section \<open>Properties of the trimmer\<close>

lemma count_nonneg: "0 \<le> count counter txt"
  by (auto simp: count_def max_def split: option.splits)

lemma sum_tokens_nonneg: "0 \<le> sum_list (map (seg_tokens counter) segs)"
  by (induction segs) (simp_all add: count_nonneg)

lemma sum_list_snoc_last:
  "xs \<noteq> [] \<Longrightarrow> sum_list (map f xs) = sum_list (map f (butlast xs)) + (f (last xs) :: int)"
  by (induction xs) auto

lemma last_tokens_le_sum:
  "segs \<noteq> [] \<Longrightarrow> seg_tokens counter (last segs) \<le> sum_list (map (seg_tokens counter) segs)"
  using sum_list_snoc_last[of segs "seg_tokens counter"]
    sum_tokens_nonneg[of counter "butlast segs"]
  by linarith

lemma drop_eq_self_iff: "k \<le> length xs \<Longrightarrow> (drop k xs = xs) = (k = 0)"
proof
  assume a: "k \<le> length xs" "drop k xs = xs"
  then have "length xs - k = length xs" by (metis length_drop)
  then show "k = 0" using a(1) by (cases "xs = []") auto
qed simp

lemma drop_pred_last: "xs \<noteq> [] \<Longrightarrow> drop (length xs - 1) xs = [last xs]"
  by (induction xs) (auto simp: drop_Cons')

lemma demo_tokens:
  "seg_tokens demo_counter seg5 = 5" "seg_tokens demo_counter seg3 = 3"
  "seg_tokens demo_counter seg2 = 2"
  by (simp_all add: seg5_def seg3_def seg2_def demo_segment_def demo_counter_def count_def
        strip_def is_space_def)

lemma demo_distinct: "seg5 \<noteq> seg3" "seg3 \<noteq> seg2" "seg5 \<noteq> seg2"
  by (simp_all add: seg5_def seg3_def seg2_def demo_segment_def)

lemma cut_loop_spec:
  assumes "length tc = n" "start < n" "running = sum_list (drop start tc)"
    and "cut_loop tc n m start running = (k, r)"
  shows "start \<le> k \<and> k < n \<and> r = sum_list (drop k tc) \<and> (r \<le> m \<or> k = n - 1)
         \<and> (\<forall>j. start \<le> j \<and> j < k \<longrightarrow> m < sum_list (drop j tc))"
  using assms
proof (induction tc n m start running rule: cut_loop.induct)
  case (1 tc n m start running)
  show ?case
  proof (cases "int start < int n - 1 \<and> running > m")
    case True
    then have step: "cut_loop tc n m (start + 1) (running - tc ! start) = (k, r)"
      using "1.prems"(4) by (subst (asm) cut_loop.simps) simp
    have lt: "start + 1 < n" using True by linarith
    have dr: "drop start tc = tc ! start # drop (start + 1) tc"
      using "1.prems"(1,2) by (simp add: Cons_nth_drop_Suc)
    have run: "running - tc ! start = sum_list (drop (start + 1) tc)"
      using "1.prems"(3) dr by simp
    from "1.IH"[OF True "1.prems"(1) lt run step]
    have ih: "start + 1 \<le> k \<and> k < n \<and> r = sum_list (drop k tc) \<and> (r \<le> m \<or> k = n - 1)
         \<and> (\<forall>j. start + 1 \<le> j \<and> j < k \<longrightarrow> m < sum_list (drop j tc))" .
    have "\<forall>j. start \<le> j \<and> j < k \<longrightarrow> m < sum_list (drop j tc)"
    proof (intro allI impI)
      fix j assume j: "start \<le> j \<and> j < k"
      show "m < sum_list (drop j tc)"
      proof (cases "j = start")
        case True
        then show ?thesis using \<open>int start < int n - 1 \<and> running > m\<close> "1.prems"(3) by simp
      next
        case False
        then show ?thesis using j ih by simp
      qed
    qed
    with ih show ?thesis by auto
  next
    case False
    have "cut_loop tc n m start running = (start, running)"
      using False by (subst cut_loop.simps) auto
    then have "(k, r) = (start, running)"
      using "1.prems"(4) by simp
    then show ?thesis using False "1.prems" by auto
  qed
qed

lemma safety_pass_id:
  "length trimmed \<le> 1 \<or> toks \<le> m \<Longrightarrow> safety_pass counter m trimmed toks = (trimmed, toks)"
  by (cases "(counter, m, trimmed, toks)" rule: safety_pass.cases) auto


lemma trim_over_budget:
  assumes "segments \<noteq> []" "0 < max_tokens"
    and "max_tokens < sum_list (map (seg_tokens counter) segments)"
  shows "\<exists>k. k < length segments
     \<and> trim_segments segments max_tokens counter =
         (drop k segments, True, sum_list (map (seg_tokens counter) (drop k segments)))
     \<and> (sum_list (map (seg_tokens counter) (drop k segments)) \<le> max_tokens
          \<or> k = length segments - 1)
     \<and> (\<forall>j<k. max_tokens < sum_list (map (seg_tokens counter) (drop j segments)))"
proof -
  let ?f = "seg_tokens counter"
  let ?tc = "map ?f segments"
  obtain k r where kr: "cut_loop ?tc (length segments) max_tokens 0 (sum_list ?tc) = (k, r)"
    by (cases "cut_loop ?tc (length segments) max_tokens 0 (sum_list ?tc)")
  have n: "0 < length segments" using assms(1) by simp
  have "0 \<le> k \<and> k < length segments \<and> r = sum_list (drop k ?tc)
      \<and> (r \<le> max_tokens \<or> k = length segments - 1)
      \<and> (\<forall>j. 0 \<le> j \<and> j < k \<longrightarrow> max_tokens < sum_list (drop j ?tc))"
    by (rule cut_loop_spec[OF _ n _ kr]) simp_all
  then have k: "k < length segments"
    and r: "r = sum_list (map ?f (drop k segments))"
    and stop: "r \<le> max_tokens \<or> k = length segments - 1"
    and before: "\<forall>j<k. max_tokens < sum_list (map ?f (drop j segments))"
    by (auto simp: drop_map)
  have ne: "drop k segments \<noteq> []" using k by simp
  have len: "k = length segments - 1 \<Longrightarrow> length (drop k segments) \<le> 1" by simp
  have sp: "safety_pass counter max_tokens (drop k segments) r = (drop k segments, r)"
    using stop len by (intro safety_pass_id) auto
  have over: "\<not> sum_list ?tc \<le> max_tokens" using assms(3) by simp
  have pos: "\<not> max_tokens \<le> 0" using assms(2) by simp
  have "trim_segments segments max_tokens counter = (drop k segments, True, r)"
    unfolding trim_segments_def Let_def
    by (simp only: assms(1) pos over if_False kr r[symmetric] ne sp prod.case)
  with k r stop before show ?thesis by blast
qed


lemma trim_within_budget:
  assumes "sum_list (map (seg_tokens counter) segments) \<le> max_tokens"
  shows "trim_segments segments max_tokens counter =
           (segments, False, sum_list (map (seg_tokens counter) segments))"
proof (cases "segments = [] \<or> max_tokens \<le> 0")
  case True
  then show ?thesis by (auto simp: trim_segments_def)
next
  case False
  then have "segments \<noteq> []" "\<not> max_tokens \<le> 0" by simp_all
  then show ?thesis
    unfolding trim_segments_def Let_def by (simp only: assms if_True if_False)
qed

lemma demo_trim_4:
  "trim_segments [seg5, seg3, seg2] 4 demo_counter = ([seg2], True, 2)"
  by (simp add: trim_segments_def demo_tokens cut_loop.simps)

lemma demo_trim_5:
  "trim_segments [seg5, seg3, seg2] 5 demo_counter = ([seg3, seg2], True, 5)"
  by (simp add: trim_segments_def demo_tokens cut_loop.simps)

lemma demo_trim_single:
  "trim_segments [seg5] 4 demo_counter = ([seg5], True, 5)"
  by (simp add: trim_segments_def demo_tokens cut_loop.simps)

lemma demo_trim_last_big:
  "trim_segments [seg3, seg5] 4 demo_counter = ([seg5], True, 5)"
  by (simp add: trim_segments_def demo_tokens cut_loop.simps)

section \<open>Properties of the transcript reader\<close>

lemma seq_Inr [simp]: "seq (Inr x) f = f x"
  by (simp add: seq_def)

lemma seq_Inl [simp]: "seq (Inl e) f = Inl e"
  by (simp add: seq_def)

lemma split_at_separator:
  "a \<notin> set xs \<Longrightarrow> a \<notin> set xs' \<Longrightarrow> xs @ a # ys = xs' @ a # ys'
   \<Longrightarrow> xs = xs' \<and> ys = ys'"
proof (induction xs arbitrary: xs')
  case Nil
  then show ?case by (cases xs') auto
next
  case (Cons x xs)
  then show ?case by (cases xs') auto
qed

lemma feed_segment_nonempty: "feed_segment E ht \<noteq> []"
  by (simp add: feed_segment_def)

lemma digest_input_append:
  "digest_input E (xs @ ys) = digest_input E xs @ digest_input E ys"
  by (simp add: digest_input_def)

lemma digest_input_empty_iff: "(digest_input E ys = []) = (ys = [])"
  by (cases ys) (auto simp: digest_input_def feed_segment_nonempty)

lemma collect_lines_append:
  "collect_lines E (xs @ ys) st = seq (collect_lines E xs st) (collect_lines E ys)"
proof (induction xs arbitrary: st)
  case Nil
  show ?case by simp
next
  case (Cons raw xs)
  show ?case
  proof (cases "collect_line E raw st")
    case (Inl e)
    then show ?thesis by simp
  next
    case (Inr st')
    then show ?thesis using Cons.IH by simp
  qed
qed

lemma collect_line_undecodable:
  "json_loads E raw = Inl JSONDecodeError \<Longrightarrow> collect_line E raw st = Inr st"
  by (cases st) (simp add: collect_line_def)

lemma collect_lines_all_undecodable:
  "\<forall>l\<in>set lines. json_loads E l = Inl JSONDecodeError \<Longrightarrow> collect_lines E lines st = Inr st"
  by (induction lines) (simp_all add: collect_line_undecodable)

lemma collect_line_digest:
  assumes "collect_line E raw (segs, l, d) = Inr (segs', l', d')"
  shows "\<exists>new. segs' = segs @ new \<and> d' = d @ digest_input E (pairs_of new)"
proof (cases "json_loads E raw")
  case (Inl exc)
  then have "segs' = segs @ [] \<and> d' = d @ digest_input E (pairs_of [])"
    using assms by (simp add: collect_line_def digest_input_def pairs_of_def split: if_splits)
  then show ?thesis by blast
next
  case (Inr data)
  have "(segs' = segs \<and> d' = d)
      \<or> (\<exists>seg. segs' = segs @ [seg] \<and> d' = d @ feed_segment E (header seg, text' seg))"
    using assms Inr
    by (auto simp: collect_line_def seq_def Let_def
          split: sum.splits json.splits option.splits prod.splits if_splits)
  then show ?thesis
  proof
    assume "segs' = segs \<and> d' = d"
    then have "segs' = segs @ [] \<and> d' = d @ digest_input E (pairs_of [])"
      by (simp add: digest_input_def pairs_of_def)
    then show ?thesis by blast
  next
    assume "\<exists>seg. segs' = segs @ [seg] \<and> d' = d @ feed_segment E (header seg, text' seg)"
    then obtain seg where "segs' = segs @ [seg] \<and> d' = d @ digest_input E (pairs_of [seg])"
      by (auto simp: digest_input_def pairs_of_def)
    then show ?thesis by blast
  qed
qed

lemma collect_lines_digest:
  "collect_lines E lines (segs, l, d) = Inr (segs', l', d')
   \<Longrightarrow> \<exists>new. segs' = segs @ new \<and> d' = d @ digest_input E (pairs_of new)"
proof (induction lines arbitrary: segs l d)
  case Nil
  then have "segs' = segs @ [] \<and> d' = d @ digest_input E (pairs_of [])"
    by (simp add: digest_input_def pairs_of_def)
  then show ?case by blast
next
  case (Cons raw lines)
  from Cons.prems obtain st where st: "collect_line E raw (segs, l, d) = Inr st"
      and rest: "collect_lines E lines st = Inr (segs', l', d')"
    by (cases "collect_line E raw (segs, l, d)") simp_all
  obtain s1 l1 d1 where st_eq: "st = (s1, l1, d1)" by (cases st)
  from collect_line_digest[OF st[unfolded st_eq]]
  obtain n1 where n1: "s1 = segs @ n1" "d1 = d @ digest_input E (pairs_of n1)" by blast
  from Cons.IH[OF rest[unfolded st_eq]]
  obtain n2 where n2: "segs' = s1 @ n2" "d' = d1 @ digest_input E (pairs_of n2)" by blast
  have "segs' = segs @ (n1 @ n2) \<and> d' = d @ digest_input E (pairs_of (n1 @ n2))"
    using n1 n2 by (simp add: digest_input_def pairs_of_def)
  then show ?case by blast
qed

lemma collect_from_lines_digest:
  assumes "collect_from_lines E lines = Inr (segs, latest, dg)"
  shows "dg = sha256_hex E (digest_input E (pairs_of segs))"
proof -
  obtain st where st: "collect_lines E lines ([], None, []) = Inr st"
    using assms by (cases "collect_lines E lines ([], None, [])")
      (simp_all add: collect_from_lines_def)
  obtain s1 l1 d1 where st_eq: "st = (s1, l1, d1)" by (cases st)
  from collect_lines_digest[OF st[unfolded st_eq]]
  have d1: "d1 = digest_input E (pairs_of s1)" by simp
  have "segs = s1" "dg = sha256_hex E d1"
    using assms st st_eq by (simp_all add: collect_from_lines_def)
  then show ?thesis using d1 by simp
qed

lemma collect_segments_digest:
  assumes "collect_segments E path = Inr (segs, latest, dg)"
  shows "dg = sha256_hex E (digest_input E (pairs_of segs))"
proof (cases "files E path")
  case None
  with assms show ?thesis by (simp add: collect_segments_def)
next
  case (Some content)
  obtain lines err where content: "content = (lines, err)" by (cases content)
  show ?thesis
  proof (cases err)
    case None
    with assms Some content have "collect_from_lines E lines = Inr (segs, latest, dg)"
      by (simp add: collect_segments_def)
    then show ?thesis by (rule collect_from_lines_digest)
  next
    case (Some exc)
    with assms \<open>files E path = Some content\<close> content show ?thesis
      by (cases "collect_lines E lines ([], None, [])") (simp_all add: collect_segments_def)
  qed
qed

lemma demo_collect_a_s1:
  "collect_segments demo_env ''sessions/a/s1.jsonl''
     = Inr ([demo_segment ''A'' ''BC'', demo_segment ''D'' ''E''], None,
            ''A'' @ [CHR 0x00] @ ''BCD'' @ [CHR 0x00] @ ''E'')"
  by code_simp

lemma demo_bytes:
  "0 \<notin> set (utf8_ignore demo_env ''A'') \<and> 0 \<notin> set (utf8_ignore demo_env ''AB'')
   \<and> utf8_ignore demo_env ''A'' \<noteq> utf8_ignore demo_env ''AB''"
  by code_simp

lemma demo_collect_two:
  "collect_from_lines demo_env [msg_line ''A'' ''BC'', msg_line ''D'' ''E'']
     = Inr ([demo_segment ''A'' ''BC'', demo_segment ''D'' ''E''], None,
            ''A'' @ [CHR 0x00] @ ''BCD'' @ [CHR 0x00] @ ''E'')"
  by code_simp

lemma demo_broken: "json_loads demo_env broken_line = Inl JSONDecodeError"
  by code_simp

lemma strip_id:
  assumes "s \<noteq> []" "\<not> is_space (hd s)" "\<not> is_space (last s)"
  shows "strip s = s"
proof -
  have a: "dropWhile is_space s = s" using assms(1,2) by (cases s) auto
  have "rev s \<noteq> []" "\<not> is_space (hd (rev s))"
    using assms(1,3) by (simp_all add: hd_rev)
  then have b: "dropWhile is_space (rev s) = rev s" by (cases "rev s") auto
  show ?thesis by (simp add: strip_def a b)
qed

lemma format_obj_shape:
  "format_at E level (JObj kvs) \<noteq> []
   \<and> hd (format_at E level (JObj kvs)) = CHR ''{''
   \<and> last (format_at E level (JObj kvs)) = CHR ''}''"
  by simp

lemma strip_format_obj: "strip (format_json E (JObj kvs)) = format_json E (JObj kvs)"
  unfolding format_json_def using format_obj_shape[of E 0 kvs]
  by (intro strip_id) (simp_all add: is_space_def)

lemma format_obj_nonempty: "format_json E (JObj kvs) \<noteq> []"
  unfolding format_json_def using format_obj_shape[of E 0 kvs] by blast

lemma finish_format_obj:
  "finish p (Some (format_json E (JObj kvs))) = Some (p, format_json E (JObj kvs))"
  by (simp add: finish_def strip_format_obj format_obj_nonempty)

lemma demo_render_custom:
  "render_payload demo_env custom_payload
     = Inr (Some (''CUSTOM_EVENT'', ''{'' @ [CHR 0x0A] @ ''  '' @ [CHR 0x22] @ ''x'' @ [CHR 0x22]
                    @ '': 1'' @ [CHR 0x0A] @ ''}''))"
  by code_simp

section \<open>Properties of the refresh\<close>

lemma request_summary_printed:
  "request_summary E m s u w = (w', r) \<Longrightarrow> printed w' = printed w"
  by (auto simp: request_summary_def split: if_splits)

lemma request_summary_ok:
  "request_summary E m s u w = (w', Inr sp) \<Longrightarrow> \<exists>n. remote E n m s u = Inr sp"
  by (auto simp: request_summary_def split: if_splits)

lemma write_summary_printed:
  "write_summary E sid label m tr kt dg sp dir w = (w', r) \<Longrightarrow> printed w' = printed w"
  by (auto simp: write_summary_def Let_def split: json.splits option.splits)

lemma write_summary_ok:
  assumes "write_summary E sid label m tr kt dg sp dir w = (w', Inr (jp, mp, r))"
  shows "\<exists>payload. sp = JObj payload
           \<and> r ''digest'' = (case map_of payload ''digest'' of
                                None \<Rightarrow> Some (JStr dg) | Some v \<Rightarrow> Some v)"
  using assms
  by (auto simp: write_summary_def Let_def map_add_def split: json.splits option.splits)

lemma append_history_printed:
  "append_history E dir r w = (w', res) \<Longrightarrow> printed w' = printed w"
  by (auto simp: append_history_def Let_def split: option.splits)

lemma summarize_session_printed:
  assumes "summarize_session E p label m mt dir w = (w', res)"
  shows "\<exists>tw. printed w' = printed w @ tw \<and> set tw \<subseteq> {TokenWarning}"
proof -
  have "printed w' = printed w \<or> printed w' = printed w @ [TokenWarning]"
    using assms
    by (auto simp: summarize_session_def Let_def
          dest!: request_summary_printed write_summary_printed append_history_printed
          split: if_splits sum.splits prod.splits)
  then show ?thesis by auto
qed


lemma write_summary_digest:
  assumes "write_summary E sid label m tr kt dg sp dir w = (w', Inr (jp, mp, r))"
    and "remote E n m sy up = Inr sp"
    and "\<forall>n mo s u d. remote E n mo s u = Inr (JObj d) \<longrightarrow> map_of d ''digest'' = None"
  shows "r ''digest'' = Some (JStr dg)"
proof -
  from write_summary_ok[OF assms(1)] obtain payload where
    pl: "sp = JObj payload"
    and dg: "r ''digest'' = (case map_of payload ''digest'' of None \<Rightarrow> Some (JStr dg) | Some v \<Rightarrow> Some v)"
    by blast
  have "map_of payload ''digest'' = None" using assms(2,3) pl by blast
  then show ?thesis using dg by simp
qed

lemma summarize_session_ok:
  assumes ok: "summarize_session E p label m mt dir w = (w', Inr (jp, mp, r))"
    and no_override: "\<forall>n mo s u d. remote E n mo s u = Inr (JObj d) \<longrightarrow> map_of d ''digest'' = None"
  shows "\<exists>segs l d. collect_segments E p = Inr (segs, l, d) \<and> segs \<noteq> []
           \<and> rec_get r ''digest'' = JStr d
           \<and> rec_get r ''latest_timestamp'' = opt_str (map_option (isoformat E) l)
           \<and> r ''session_path'' = Some (JStr p)"
  using ok
  by (auto simp: summarize_session_def Let_def rec_get_def
        split: if_splits sum.splits prod.splits
        dest!: request_summary_ok
        dest: write_summary_digest[OF _ _ no_override])


lemma summarize_session_path:
  assumes ok: "summarize_session E p label m mt dir w = (w', Inr (jp, mp, r))"
  shows "r ''session_path'' = Some (JStr p)"
  using ok
  by (auto simp: summarize_session_def Let_def
        split: if_splits sum.splits prod.splits)

lemma process_all_fail:
  "summarize_session E p None m mt dir w = (w1, Inl exc) \<Longrightarrow>
   process_all E m mt dir (p # ps) (w, idx)
     = process_all E m mt dir ps (w1\<lparr>printed := printed w1 @ [Warn (path_name p) exc]\<rparr>, idx)"
  by simp

lemma process_all_success:
  "summarize_session E p None m mt dir w = (w1, Inr (jp, mp, r)) \<Longrightarrow>
   process_all E m mt dir (p # ps) (w, idx)
     = process_all E m mt dir ps
         (w1\<lparr>clock_reads := clock_reads w1 + 1,
             printed := printed w1
               @ [Refreshed (derive_session_id p) mp
                    (rec_get (r(''summarized_at'' \<mapsto> JStr (now_iso E (clock_reads w1))))
                       ''history_path'')]\<rparr>,
          idx(derive_session_id p \<mapsto> r(''summarized_at'' \<mapsto> JStr (now_iso E (clock_reads w1)))))"
  by (simp add: Let_def)

lemma filter_token_warnings:
  "set tw \<subseteq> {TokenWarning} \<Longrightarrow> filter (\<lambda>e. e \<noteq> TokenWarning) tw = []"
  by (induction tw) auto

lemma process_all_effects:
  assumes "process_all E m mt dir ps (w, idx) = (w', idx')"
  shows "\<exists>evs. printed w' = printed w @ evs
     \<and> list_all2 outcome_of ps (filter (\<lambda>e. e \<noteq> TokenWarning) evs)
     \<and> (\<forall>sid. (\<forall>md h. Refreshed sid md h \<notin> set evs) \<longrightarrow> idx' sid = idx sid)
     \<and> (\<forall>sid md h. Refreshed sid md h \<in> set evs \<longrightarrow>
           (\<exists>p w0 w1 jp mp r. p \<in> set ps \<and> derive_session_id p = sid
                \<and> summarize_session E p None m mt dir w0 = (w1, Inr (jp, mp, r))
                \<and> idx' sid = Some (r(''summarized_at'' \<mapsto> JStr (now_iso E (clock_reads w1))))))"
  using assms
proof (induction ps arbitrary: w idx)
  case Nil
  then have "printed w' = printed w @ []" "idx' = idx" by simp_all
  then show ?case by (intro exI[of _ "[]"]) simp
next
  case (Cons p ps)
  obtain w1 res where s: "summarize_session E p None m mt dir w = (w1, res)"
    by (cases "summarize_session E p None m mt dir w")
  from summarize_session_printed[OF s] obtain tw
    where tw: "printed w1 = printed w @ tw" "set tw \<subseteq> {TokenWarning}" by blast
  have ftw: "filter (\<lambda>e. e \<noteq> TokenWarning) tw = []" using tw(2) by (rule filter_token_warnings)
  have tw_no: "\<And>sid md h. Refreshed sid md h \<notin> set tw" using tw(2) by auto
  show ?case
  proof (cases res)
    case (Inl exc)
    let ?w2 = "w1\<lparr>printed := printed w1 @ [Warn (path_name p) exc]\<rparr>"
    have rec: "process_all E m mt dir ps (?w2, idx) = (w', idx')"
      using Cons.prems process_all_fail[OF s[unfolded Inl]] by simp
    from Cons.IH[OF rec] obtain evs where evs:
      "printed w' = printed ?w2 @ evs"
      "list_all2 outcome_of ps (filter (\<lambda>e. e \<noteq> TokenWarning) evs)"
      "\<forall>sid. (\<forall>md h. Refreshed sid md h \<notin> set evs) \<longrightarrow> idx' sid = idx sid"
      "\<forall>sid md h. Refreshed sid md h \<in> set evs \<longrightarrow>
           (\<exists>p w0 w1 jp mp r. p \<in> set ps \<and> derive_session_id p = sid
                \<and> summarize_session E p None m mt dir w0 = (w1, Inr (jp, mp, r))
                \<and> idx' sid = Some (r(''summarized_at'' \<mapsto> JStr (now_iso E (clock_reads w1)))))"
      by blast
    let ?evs = "tw @ Warn (path_name p) exc # evs"
    have 1: "printed w' = printed w @ ?evs" using evs(1) tw(1) by simp
    have 2: "list_all2 outcome_of (p # ps) (filter (\<lambda>e. e \<noteq> TokenWarning) ?evs)"
      using evs(2) ftw by (simp add: outcome_of_def)
    have 3: "\<forall>sid. (\<forall>md h. Refreshed sid md h \<notin> set ?evs) \<longrightarrow> idx' sid = idx sid"
      using evs(3) by simp
    have 4: "\<forall>sid md h. Refreshed sid md h \<in> set ?evs \<longrightarrow>
           (\<exists>q w0 w1 jp mp r. q \<in> set (p # ps) \<and> derive_session_id q = sid
                \<and> summarize_session E q None m mt dir w0 = (w1, Inr (jp, mp, r))
                \<and> idx' sid = Some (r(''summarized_at'' \<mapsto> JStr (now_iso E (clock_reads w1)))))"
    proof (intro allI impI)
      fix sid md h assume "Refreshed sid md h \<in> set ?evs"
      then have "Refreshed sid md h \<in> set evs" using tw_no by auto
      with evs(4) obtain q w0 w1 jp mp r where "q \<in> set ps" "derive_session_id q = sid"
        "summarize_session E q None m mt dir w0 = (w1, Inr (jp, mp, r))"
        "idx' sid = Some (r(''summarized_at'' \<mapsto> JStr (now_iso E (clock_reads w1))))" by blast
      then show "\<exists>q w0 w1 jp mp r. q \<in> set (p # ps) \<and> derive_session_id q = sid
                \<and> summarize_session E q None m mt dir w0 = (w1, Inr (jp, mp, r))
                \<and> idx' sid = Some (r(''summarized_at'' \<mapsto> JStr (now_iso E (clock_reads w1))))"
        by (intro exI[of _ q] exI[of _ w0] exI[of _ w1] exI[of _ jp] exI[of _ mp] exI[of _ r]) simp
    qed
    from 1 2 3 4 show ?thesis by blast
  next
    case (Inr triple)
    obtain jp mp r where triple: "triple = (jp, mp, r)" by (cases triple)
    note s' = s[unfolded Inr triple]
    let ?r = "r(''summarized_at'' \<mapsto> JStr (now_iso E (clock_reads w1)))"
    let ?ev = "Refreshed (derive_session_id p) mp (rec_get ?r ''history_path'')"
    let ?w2 = "w1\<lparr>clock_reads := clock_reads w1 + 1, printed := printed w1 @ [?ev]\<rparr>"
    let ?idx1 = "idx(derive_session_id p \<mapsto> ?r)"
    have rec: "process_all E m mt dir ps (?w2, ?idx1) = (w', idx')"
      using Cons.prems process_all_success[OF s'] by simp
    from Cons.IH[OF rec] obtain evs where evs:
      "printed w' = printed ?w2 @ evs"
      "list_all2 outcome_of ps (filter (\<lambda>e. e \<noteq> TokenWarning) evs)"
      "\<forall>sid. (\<forall>md h. Refreshed sid md h \<notin> set evs) \<longrightarrow> idx' sid = ?idx1 sid"
      "\<forall>sid md h. Refreshed sid md h \<in> set evs \<longrightarrow>
           (\<exists>p w0 w1 jp mp r. p \<in> set ps \<and> derive_session_id p = sid
                \<and> summarize_session E p None m mt dir w0 = (w1, Inr (jp, mp, r))
                \<and> idx' sid = Some (r(''summarized_at'' \<mapsto> JStr (now_iso E (clock_reads w1)))))"
      by blast
    let ?evs = "tw @ ?ev # evs"
    have 1: "printed w' = printed w @ ?evs" using evs(1) tw(1) by simp
    have 2: "list_all2 outcome_of (p # ps) (filter (\<lambda>e. e \<noteq> TokenWarning) ?evs)"
      using evs(2) ftw by (simp add: outcome_of_def)
    have 3: "\<forall>sid. (\<forall>md h. Refreshed sid md h \<notin> set ?evs) \<longrightarrow> idx' sid = idx sid"
    proof (intro allI impI)
      fix sid assume a: "\<forall>md h. Refreshed sid md h \<notin> set ?evs"
      then have "sid \<noteq> derive_session_id p" by auto
      moreover have "\<forall>md h. Refreshed sid md h \<notin> set evs" using a by auto
      ultimately show "idx' sid = idx sid" using evs(3) by simp
    qed
    have 4: "\<forall>sid md h. Refreshed sid md h \<in> set ?evs \<longrightarrow>
           (\<exists>q w0 w1 jp mp r. q \<in> set (p # ps) \<and> derive_session_id q = sid
                \<and> summarize_session E q None m mt dir w0 = (w1, Inr (jp, mp, r))
                \<and> idx' sid = Some (r(''summarized_at'' \<mapsto> JStr (now_iso E (clock_reads w1)))))"
    proof (intro allI impI)
      fix sid md h assume a: "Refreshed sid md h \<in> set ?evs"
      show "\<exists>q w0 w1 jp mp r. q \<in> set (p # ps) \<and> derive_session_id q = sid
                \<and> summarize_session E q None m mt dir w0 = (w1, Inr (jp, mp, r))
                \<and> idx' sid = Some (r(''summarized_at'' \<mapsto> JStr (now_iso E (clock_reads w1))))"
      proof (cases "\<exists>md' h'. Refreshed sid md' h' \<in> set evs")
        case True
        with evs(4) obtain q w0 w1 jp mp r where "q \<in> set ps" "derive_session_id q = sid"
          "summarize_session E q None m mt dir w0 = (w1, Inr (jp, mp, r))"
          "idx' sid = Some (r(''summarized_at'' \<mapsto> JStr (now_iso E (clock_reads w1))))" by blast
        then show ?thesis
          by (intro exI[of _ q] exI[of _ w0] exI[of _ w1] exI[of _ jp] exI[of _ mp] exI[of _ r])
             simp
      next
        case False
        then have sid: "sid = derive_session_id p" using a tw_no by auto
        moreover have "idx' sid = ?idx1 sid" using False evs(3) by blast
        ultimately have "idx' sid = Some ?r" by simp
        then show ?thesis using s' sid
          by (intro exI[of _ p] exI[of _ w] exI[of _ w1] exI[of _ jp] exI[of _ mp] exI[of _ r])
             simp
      qed
    qed
    from 1 2 3 4 show ?thesis by blast
  qed
qed

lemma process_all_untouched:
  assumes "process_all E m mt dir ps (w, idx) = (w', idx')"
    and "sid \<notin> derive_session_id ` set ps"
  shows "idx' sid = idx sid"
proof -
  from process_all_effects[OF assms(1)] obtain evs where
    3: "\<forall>sid. (\<forall>md h. Refreshed sid md h \<notin> set evs) \<longrightarrow> idx' sid = idx sid"
    and 4: "\<forall>sid md h. Refreshed sid md h \<in> set evs \<longrightarrow>
           (\<exists>p w0 w1 jp mp r. p \<in> set ps \<and> derive_session_id p = sid
                \<and> summarize_session E p None m mt dir w0 = (w1, Inr (jp, mp, r))
                \<and> idx' sid = Some (r(''summarized_at'' \<mapsto> JStr (now_iso E (clock_reads w1)))))"
    by blast
  have "\<forall>md h. Refreshed sid md h \<notin> set evs"
  proof (intro allI notI)
    fix md h assume "Refreshed sid md h \<in> set evs"
    with 4 obtain p where "p \<in> set ps" "derive_session_id p = sid" by blast
    with assms(2) show False by blast
  qed
  with 3 show ?thesis by blast
qed

lemma process_all_printed:
  assumes "process_all E m mt dir ps (w, idx) = (w', idx')"
  shows "\<exists>evs. printed w' = printed w @ evs"
  using process_all_effects[OF assms] by blast

lemma process_all_fresh:
  assumes "process_all E m mt dir ps (w, idx) = (w', idx')"
    and "printed w' = printed w @ evs"
    and "\<forall>name exc. Warn name exc \<notin> set evs"
    and "distinct (map derive_session_id ps)"
    and no_override:
      "\<forall>n mo s u d. remote E n mo s u = Inr (JObj d) \<longrightarrow> map_of d ''digest'' = None"
  shows "\<forall>p\<in>set ps. up_to_date E idx' p"
  using assms(1-4)
proof (induction ps arbitrary: w idx evs)
  case Nil
  then show ?case by simp
next
  case (Cons p ps)
  obtain w1 res where s: "summarize_session E p None m mt dir w = (w1, res)"
    by (cases "summarize_session E p None m mt dir w")
  from summarize_session_printed[OF s] obtain tw
    where tw: "printed w1 = printed w @ tw" by blast
  show ?case
  proof (cases res)
    case (Inl exc)
    let ?w2 = "w1\<lparr>printed := printed w1 @ [Warn (path_name p) exc]\<rparr>"
    have rec: "process_all E m mt dir ps (?w2, idx) = (w', idx')"
      using Cons.prems(1) process_all_fail[OF s[unfolded Inl]] by simp
    from process_all_printed[OF rec] obtain evs' where "printed w' = printed ?w2 @ evs'" by blast
    then have "printed w' = printed w @ (tw @ Warn (path_name p) exc # evs')" using tw by simp
    with Cons.prems(2) have "evs = tw @ Warn (path_name p) exc # evs'" by simp
    with Cons.prems(3) show ?thesis by auto
  next
    case (Inr triple)
    obtain jp mp r where triple: "triple = (jp, mp, r)" by (cases triple)
    note s' = s[unfolded Inr triple]
    let ?r = "r(''summarized_at'' \<mapsto> JStr (now_iso E (clock_reads w1)))"
    let ?ev = "Refreshed (derive_session_id p) mp (rec_get ?r ''history_path'')"
    let ?w2 = "w1\<lparr>clock_reads := clock_reads w1 + 1, printed := printed w1 @ [?ev]\<rparr>"
    let ?idx1 = "idx(derive_session_id p \<mapsto> ?r)"
    have rec: "process_all E m mt dir ps (?w2, ?idx1) = (w', idx')"
      using Cons.prems(1) process_all_success[OF s'] by simp
    from process_all_printed[OF rec] obtain evs' where e': "printed w' = printed ?w2 @ evs'"
      by blast
    then have "printed w' = printed w @ (tw @ ?ev # evs')" using tw by simp
    with Cons.prems(2) have "evs = tw @ ?ev # evs'" by simp
    with Cons.prems(3) have nw: "\<forall>name exc. Warn name exc \<notin> set evs'" by auto
    have d: "distinct (map derive_session_id ps)"
      and np: "derive_session_id p \<notin> derive_session_id ` set ps"
      using Cons.prems(4) by auto
    have rest: "\<forall>q\<in>set ps. up_to_date E idx' q"
      by (rule Cons.IH[OF rec e' nw d])
    have "idx' (derive_session_id p) = ?idx1 (derive_session_id p)"
      by (rule process_all_untouched[OF rec np])
    then have entry: "idx' (derive_session_id p) = Some ?r" by simp
    from summarize_session_ok[OF s' no_override] obtain segs l dg where
      c: "collect_segments E p = Inr (segs, l, dg)" "segs \<noteq> []"
         "rec_get r ''digest'' = JStr dg"
         "rec_get r ''latest_timestamp'' = opt_str (map_option (isoformat E) l)"
      by blast
    have "rec_get ?r ''digest'' = JStr dg"
         "rec_get ?r ''latest_timestamp'' = opt_str (map_option (isoformat E) l)"
      using c(3,4) by (simp_all add: rec_get_def)
    then have "up_to_date E idx' p"
      using entry c(1) by (simp add: up_to_date_def)
    with rest show ?thesis by simp
  qed
qed

lemma select_stale_sound:
  "select_stale E idx False ss = Inr tp \<Longrightarrow>
     set tp \<subseteq> set ss \<and> (\<forall>p\<in>set ss. p \<notin> set tp \<longrightarrow> up_to_date E idx p)"
proof (induction ss arbitrary: tp)
  case Nil
  then show ?case by simp
next
  case (Cons p ss)
  show ?case
  proof (cases "idx (derive_session_id p)")
    case None
    with Cons.prems obtain tp' where t: "select_stale E idx False ss = Inr tp'" "tp = p # tp'"
      by (cases "select_stale E idx False ss") (auto simp: Let_def)
    from Cons.IH[OF t(1)] t(2) show ?thesis by auto
  next
    case (Some entry)
    show ?thesis
    proof (cases "collect_segments E p")
      case (Inl e)
      with Some Cons.prems show ?thesis by (simp add: Let_def)
    next
      case (Inr res)
      obtain segs l dg where res: "res = (segs, l, dg)" by (cases res)
      show ?thesis
      proof (cases "up_to_date E idx p")
        case True
        then have "select_stale E idx False (p # ss) = select_stale E idx False ss"
          using Some Inr res by (auto simp: up_to_date_def Let_def)
        with Cons.prems have "select_stale E idx False ss = Inr tp" by simp
        from Cons.IH[OF this] True show ?thesis by auto
      next
        case False
        then have "select_stale E idx False (p # ss)
                     = seq (select_stale E idx False ss) (\<lambda>to_process. Inr (p # to_process))"
          using Some Inr res by (auto simp: up_to_date_def Let_def)
        with Cons.prems obtain tp' where t: "select_stale E idx False ss = Inr tp'" "tp = p # tp'"
          by (cases "select_stale E idx False ss") auto
        from Cons.IH[OF t(1)] t(2) show ?thesis by auto
      qed
    qed
  qed
qed

lemma select_stale_none:
  "\<forall>p\<in>set ss. up_to_date E idx p \<Longrightarrow> select_stale E idx False ss = Inr []"
proof (induction ss)
  case Nil
  then show ?case by simp
next
  case (Cons p ss)
  then have u: "up_to_date E idx p" and r: "select_stale E idx False ss = Inr []" by simp_all
  from u obtain entry segs l dg where
    "idx (derive_session_id p) = Some entry" "collect_segments E p = Inr (segs, l, dg)"
    "segs = [] \<or> (JStr dg = rec_get entry ''digest''
        \<and> opt_str (map_option (isoformat E) l) = rec_get entry ''latest_timestamp'')"
    by (auto simp: up_to_date_def split: option.splits sum.splits)
  then show ?case using r by (auto simp: Let_def)
qed

lemma up_to_date_cong:
  "idx' (derive_session_id p) = idx (derive_session_id p) \<Longrightarrow>
     up_to_date E idx' p = up_to_date E idx p"
  by (simp add: up_to_date_def)


lemma select_stale_distinct:
  "select_stale E idx force ss = Inr tp \<Longrightarrow>
     set tp \<subseteq> set ss \<and> (distinct (map f ss) \<longrightarrow> distinct (map f tp))"
proof (induction ss arbitrary: tp)
  case Nil
  then show ?case by simp
next
  case (Cons p ss)
  show ?case
  proof (cases "select_stale E idx force ss")
    case (Inl e)
    with Cons.prems show ?thesis
      by (auto simp: Let_def seq_def split: option.splits sum.splits prod.splits if_splits)
  next
    case (Inr tp')
    then have "set tp' \<subseteq> set ss \<and> (distinct (map f ss) \<longrightarrow> distinct (map f tp'))"
      by (rule Cons.IH)
    moreover have "tp = tp' \<or> tp = p # tp'"
      using Cons.prems Inr
      by (auto simp: Let_def seq_def split: option.splits sum.splits prod.splits if_splits)
    ultimately show ?thesis by (auto simp: image_iff subset_iff)
  qed
qed


lemma refresh_summaries_cases:
  assumes "refresh_summaries E found dir idx m mt limit force w = Inr (w1, out)"
  shows "(select_stale E idx force (apply_limit limit found) = Inr []
            \<and> w1 = w\<lparr>printed := printed w @ [UpToDate]\<rparr> \<and> out = None)
       \<or> (\<exists>tp idx1. tp \<noteq> [] \<and> select_stale E idx force (apply_limit limit found) = Inr tp
            \<and> process_all E m mt dir tp (w, idx) = (w1, idx1) \<and> out = Some idx1)"
proof (cases "select_stale E idx force (apply_limit limit found)")
  case (Inl e)
  with assms show ?thesis by (simp add: refresh_summaries_def)
next
  case (Inr tp)
  show ?thesis
  proof (cases "tp = []")
    case True
    with assms Inr show ?thesis by (auto simp: refresh_summaries_def)
  next
    case False
    with assms Inr show ?thesis
      by (cases "process_all E m mt dir tp (w, idx)") (auto simp: refresh_summaries_def)
  qed
qed

lemma refresh_summaries_up_to_date:
  assumes "\<forall>p\<in>set (apply_limit limit found). up_to_date E idx p"
  shows "refresh_summaries E found dir idx m mt limit False w
           = Inr (w\<lparr>printed := printed w @ [UpToDate]\<rparr>, None)"
  using select_stale_none[OF assms] by (simp add: refresh_summaries_def)

lemma demo_no_digest_field:
  "\<forall>n mo s u d. remote demo_env n mo s u = Inr (JObj d) \<longrightarrow> map_of d ''digest'' = None"
  by (auto simp: demo_env_def demo_summary_def)

lemma demo_first_run:
  "case refresh_summaries demo_env [''sessions/b/s1.jsonl'', ''sessions/b/s2.jsonl''] ''out''
          Map.empty ''gpt-5'' 200000 None False world0 of
     Inr (w1, out) \<Rightarrow>
       printed w1 = [TokenWarning,
                     Refreshed ''s1'' ''out/s1.md'' (JStr ''out/s1.history.md''),
                     Refreshed ''s2'' ''out/s2.md'' (JStr ''out/s2.history.md'')]
       \<and> requests w1 = 2
   | _ \<Rightarrow> False"
  by code_simp

lemma demo_identities:
  "distinct (map derive_session_id
               (apply_limit None [''sessions/b/s1.jsonl'', ''sessions/b/s2.jsonl'']))"
  by code_simp






section \<open>The claims about the trimmer\<close>

text \<open>
  Claim C1. For a positive budget, the tokens of the kept segments are at most the
  budget or exactly one segment is kept; the returned token count is the sum over the
  kept segments; and the kept list is a suffix of the input, so nothing is reordered
  or split.
\<close>

theorem trim_segments_correct:
  assumes "0 < max_tokens"
    and "trim_segments segments max_tokens counter = (kept, truncated, kept_tokens)"
  shows "(kept_tokens \<le> max_tokens \<or> length kept = 1)
       \<and> kept_tokens = sum_list (map (seg_tokens counter) kept)
       \<and> suffix kept segments"
proof (cases "sum_list (map (seg_tokens counter) segments) \<le> max_tokens")
  case True
  then show ?thesis using assms(2) by (auto simp: trim_within_budget)
next
  case False
  then have over: "max_tokens < sum_list (map (seg_tokens counter) segments)" by simp
  then have ne: "segments \<noteq> []" using assms(1) by auto
  from trim_over_budget[OF ne assms(1) over]
  obtain k where k: "k < length segments"
      "trim_segments segments max_tokens counter =
         (drop k segments, True, sum_list (map (seg_tokens counter) (drop k segments)))"
      "sum_list (map (seg_tokens counter) (drop k segments)) \<le> max_tokens
         \<or> k = length segments - 1"
    by blast
  have eqs: "kept = drop k segments"
      "kept_tokens = sum_list (map (seg_tokens counter) (drop k segments))"
    using k(2) assms(2) by simp_all
  have "length kept = 1" if "k = length segments - 1"
    using that k(1) eqs(1) by simp
  then show ?thesis using k(3) eqs by (auto simp: suffix_drop)
qed




theorem trim_segments_correct_witness:
  "(0::int) < 4
   \<and> trim_segments [seg5, seg3, seg2] 4 demo_counter = ([seg2], True, 2)
   \<and> ((2::int) \<le> 4 \<or> length [seg2] = 1)
   \<and> 2 = sum_list (map (seg_tokens demo_counter) [seg2])
   \<and> suffix [seg2] [seg5, seg3, seg2]"
  using trim_segments_correct[OF _ demo_trim_4] demo_trim_4 by simp

text \<open>
  Claim C2, as stated: for a positive budget \<^verbatim>\<open>truncated\<close> is true exactly when the
  returned list differs from the input. It fails for a single segment that alone exceeds
  the budget: the segment is returned, so the output is the input, and
  \<^verbatim>\<open>truncated\<close> is true.
\<close>

theorem trim_segments_truncated_counterexample:
  "(0::int) < 4
   \<and> (case trim_segments [seg5] 4 demo_counter of
        (kept, truncated, kept_tokens) \<Rightarrow> truncated \<noteq> (kept \<noteq> [seg5]))"
  by (simp add: demo_trim_single)

text \<open>
  Claim C2, amended: for a positive budget \<^verbatim>\<open>truncated\<close> is true exactly when the token
  count of the whole input exceeds the budget, and the returned list differs from the
  input exactly when \<^verbatim>\<open>truncated\<close> is true and the input is not a single segment.
\<close>

theorem trim_segments_truncated_flag:
  assumes "0 < max_tokens"
    and "trim_segments segments max_tokens counter = (kept, truncated, kept_tokens)"
  shows "truncated = (max_tokens < sum_list (map (seg_tokens counter) segments))
       \<and> (kept \<noteq> segments) = (truncated \<and> length segments \<noteq> 1)"
proof (cases "sum_list (map (seg_tokens counter) segments) \<le> max_tokens")
  case True
  then show ?thesis using assms(2) by (auto simp: trim_within_budget)
next
  case False
  then have over: "max_tokens < sum_list (map (seg_tokens counter) segments)" by simp
  then have ne: "segments \<noteq> []" using assms(1) by auto
  from trim_over_budget[OF ne assms(1) over]
  obtain k where k: "k < length segments"
      "trim_segments segments max_tokens counter =
         (drop k segments, True, sum_list (map (seg_tokens counter) (drop k segments)))"
      "\<forall>j<k. max_tokens < sum_list (map (seg_tokens counter) (drop j segments))"
      "sum_list (map (seg_tokens counter) (drop k segments)) \<le> max_tokens
         \<or> k = length segments - 1"
    by blast
  have eqs: "kept = drop k segments" "truncated"
    using k(2) assms(2) by simp_all
  have "k = 0 \<longleftrightarrow> length segments = 1"
  proof
    assume "k = 0"
    then show "length segments = 1" using k(4) over ne
      by (cases segments) auto
  next
    assume "length segments = 1"
    then show "k = 0" using k(1) by simp
  qed
  moreover have "(drop k segments \<noteq> segments) = (k \<noteq> 0)"
    using k(1) by (simp add: drop_eq_self_iff)
  ultimately show ?thesis using over eqs by simp
qed

theorem trim_segments_truncated_flag_witness:
  "(0::int) < 5
   \<and> trim_segments [seg5, seg3, seg2] 5 demo_counter = ([seg3, seg2], True, 5)
   \<and> True = ((5::int) < sum_list (map (seg_tokens demo_counter) [seg5, seg3, seg2]))
   \<and> ([seg3, seg2] \<noteq> [seg5, seg3, seg2]) = (True \<and> length [seg5, seg3, seg2] \<noteq> 1)"
  using trim_segments_truncated_flag[OF _ demo_trim_5] demo_trim_5 by simp

text \<open>
  Claim C5. For a non-empty input and any budget, positive, zero or negative, the
  kept list is not empty; and when even the last segment alone is over a positive
  budget, so that the cut would run through every segment, exactly the last segment is
  kept.
\<close>

theorem trim_segments_never_empty:
  assumes "segments \<noteq> []"
  shows "fst (trim_segments segments max_tokens counter) \<noteq> []
       \<and> (0 < max_tokens \<and> max_tokens < seg_tokens counter (last segments)
            \<longrightarrow> fst (trim_segments segments max_tokens counter) = [last segments])"
proof (cases "sum_list (map (seg_tokens counter) segments) \<le> max_tokens")
  case True
  have "seg_tokens counter (last segments) \<le> max_tokens"
    using True last_tokens_le_sum[OF assms, of counter] by simp
  then show ?thesis using assms True by (simp add: trim_within_budget)
next
  case False
  show ?thesis
  proof (cases "max_tokens \<le> 0")
    case True
    then show ?thesis using assms by (simp add: trim_segments_def)
  next
    case pos: False
    then have p: "0 < max_tokens" by simp
    from False have over: "max_tokens < sum_list (map (seg_tokens counter) segments)" by simp
    from trim_over_budget[OF assms p over]
    obtain k where k: "k < length segments"
      "trim_segments segments max_tokens counter =
         (drop k segments, True, sum_list (map (seg_tokens counter) (drop k segments)))"
      "sum_list (map (seg_tokens counter) (drop k segments)) \<le> max_tokens
         \<or> k = length segments - 1"
      by blast
    have ne: "drop k segments \<noteq> []" using k(1) by simp
    have "drop k segments = [last segments]"
      if big: "max_tokens < seg_tokens counter (last segments)"
    proof -
      have l: "last (drop k segments) = last segments" using k(1) by simp
      have "max_tokens < sum_list (map (seg_tokens counter) (drop k segments))"
        using big last_tokens_le_sum[OF ne, of counter] l by simp
      then have "k = length segments - 1" using k(3) by auto
      then show ?thesis using assms drop_pred_last[of segments] by simp
    qed
    then show ?thesis using k(2) ne by simp
  qed
qed

theorem trim_segments_never_empty_witness:
  "[seg3, seg5] \<noteq> []
   \<and> fst (trim_segments [seg3, seg5] 4 demo_counter) \<noteq> []
   \<and> (0::int) < 4 \<and> 4 < seg_tokens demo_counter (last [seg3, seg5])
   \<and> fst (trim_segments [seg3, seg5] 4 demo_counter) = [last [seg3, seg5]]"
  using trim_segments_never_empty[of "[seg3, seg5]" 4 demo_counter]
  by (simp add: demo_tokens)

text \<open>
  Claim C6. With a budget of zero or less the trimmer is switched off: it returns the
  input list as it is, \<^verbatim>\<open>truncated = False\<close>, and the sum of the token counts of all
  segments.
\<close>

theorem trim_segments_budget_disabled:
  "max_tokens \<le> 0 \<Longrightarrow>
   trim_segments segments max_tokens counter =
     (segments, False, sum_list (map (seg_tokens counter) segments))"
  by (simp add: trim_segments_def)

theorem trim_segments_budget_disabled_witness:
  "(0::int) \<le> 0 \<and> trim_segments [seg5, seg3, seg2] 0 demo_counter = ([seg5, seg3, seg2], False, 10)"
  using trim_segments_budget_disabled[of 0 "[seg5, seg3, seg2]" demo_counter]
  by (simp add: demo_tokens)

text \<open>
  Claim C10. For more than one segment whose total is over a positive budget, if some
  non-empty proper suffix is within the budget, the trimmer returns the longest suffix
  that is within the budget, with \<^verbatim>\<open>truncated\<close> true and the token count the sum over
  that suffix: the second loop removes nothing.
\<close>

theorem trim_segments_longest_suffix:
  assumes "1 < length segments" "0 < max_tokens"
    and "max_tokens < sum_list (map (seg_tokens counter) segments)"
    and "\<exists>k. 0 < k \<and> k < length segments
             \<and> sum_list (map (seg_tokens counter) (drop k segments)) \<le> max_tokens"
    and "trim_segments segments max_tokens counter = (kept, truncated, kept_tokens)"
  shows "suffix kept segments \<and> kept \<noteq> segments \<and> kept \<noteq> []
       \<and> sum_list (map (seg_tokens counter) kept) \<le> max_tokens
       \<and> (\<forall>ys. suffix ys segments \<and> sum_list (map (seg_tokens counter) ys) \<le> max_tokens
              \<longrightarrow> length ys \<le> length kept)
       \<and> truncated \<and> kept_tokens = sum_list (map (seg_tokens counter) kept)"
proof -
  let ?sum = "\<lambda>xs. sum_list (map (seg_tokens counter) xs)"
  have ne: "segments \<noteq> []" using assms(1) by auto
  from trim_over_budget[OF ne assms(2,3)]
  obtain k where k: "k < length segments"
      "trim_segments segments max_tokens counter = (drop k segments, True, ?sum (drop k segments))"
      "?sum (drop k segments) \<le> max_tokens \<or> k = length segments - 1"
      "\<forall>j<k. max_tokens < ?sum (drop j segments)"
    by blast
  have eqs: "kept = drop k segments" "truncated" "kept_tokens = ?sum (drop k segments)"
    using k(2) assms(5) by simp_all
  obtain k0 where k0: "0 < k0" "k0 < length segments" "?sum (drop k0 segments) \<le> max_tokens"
    using assms(4) by blast
  have "k \<le> k0" using k(4) k0(3) by (meson not_le_imp_less not_less)
  then have fits: "?sum (drop k segments) \<le> max_tokens"
    using k(3) k0(2,3) by (cases "k = k0") auto
  have k_pos: "k \<noteq> 0" using fits assms(3) by (cases "k = 0") auto
  have longest: "length ys \<le> length (drop k segments)"
    if ys: "suffix ys segments" "?sum ys \<le> max_tokens" for ys
  proof -
    obtain zs where zs: "segments = zs @ ys" using ys(1) by (auto simp: suffix_def)
    then have d: "drop (length zs) segments = ys" by simp
    have "\<not> length zs < k" using k(4) d ys(2) by auto
    then show ?thesis using zs by simp
  qed
  have "drop k segments \<noteq> segments" using k(1) k_pos by (simp add: drop_eq_self_iff)
  moreover have "drop k segments \<noteq> []" using k(1) by simp
  ultimately show ?thesis using eqs fits longest by (simp add: suffix_drop)
qed

theorem trim_segments_longest_suffix_witness:
  "1 < length [seg5, seg3, seg2] \<and> (0::int) < 5
   \<and> 5 < sum_list (map (seg_tokens demo_counter) [seg5, seg3, seg2])
   \<and> sum_list (map (seg_tokens demo_counter) (drop 1 [seg5, seg3, seg2])) \<le> 5
   \<and> trim_segments [seg5, seg3, seg2] 5 demo_counter = ([seg3, seg2], True, 5)
   \<and> suffix [seg3, seg2] [seg5, seg3, seg2]
   \<and> sum_list (map (seg_tokens demo_counter) [seg3, seg2]) \<le> 5
   \<and> suffix [seg2] [seg5, seg3, seg2]
   \<and> sum_list (map (seg_tokens demo_counter) [seg2]) \<le> 5
   \<and> length [seg2] \<le> length [seg3, seg2]"
proof -
  have ex: "\<exists>k. 0 < k \<and> k < length [seg5, seg3, seg2]
      \<and> sum_list (map (seg_tokens demo_counter) (drop k [seg5, seg3, seg2])) \<le> 5"
    by (rule exI[of _ 1]) (simp add: demo_tokens)
  have "1 < length [seg5, seg3, seg2]" by simp
  moreover have "(5::int) < sum_list (map (seg_tokens demo_counter) [seg5, seg3, seg2])"
    by (simp add: demo_tokens)
  ultimately show ?thesis
    using trim_segments_longest_suffix[OF _ _ _ ex demo_trim_5] demo_trim_5
    by (simp add: demo_tokens suffix_def)
qed

section \<open>The claims about the transcript reader\<close>

text \<open>
  Claim C3, as stated: the bytes given to the digest determine the segments, the
  separator cannot be mistaken for content, and any change of content, count or order
  changes the bytes. The code joins header and text with one zero byte and puts nothing
  between segments, so: the claim's own pair of examples feeds the same bytes; two
  transcripts whose two segments differ feed the same bytes and get the same digest; and
  two different segments feed the same bytes in either order.
\<close>

theorem digest_input_counterexample:
  "feed_segment demo_env (''A'', ''B'' @ [CHR 0x00])
     = feed_segment demo_env (''A'' @ [CHR 0x00] @ ''B'', [])
   \<and> (''A'', ''B'' @ [CHR 0x00]) \<noteq> (''A'' @ [CHR 0x00] @ ''B'', [])
   \<and> collect_segments demo_env ''sessions/a/s1.jsonl''
       = Inr ([demo_segment ''A'' ''BC'', demo_segment ''D'' ''E''], None,
              ''A'' @ [CHR 0x00] @ ''BCD'' @ [CHR 0x00] @ ''E'')
   \<and> collect_segments demo_env ''sessions/b/s1.jsonl''
       = Inr ([demo_segment ''A'' ''B'', demo_segment ''CD'' ''E''], None,
              ''A'' @ [CHR 0x00] @ ''BCD'' @ [CHR 0x00] @ ''E'')
   \<and> digest_input demo_env [(''A'', ''BC''), (''D'', ''E'')]
       = digest_input demo_env [(''A'', ''B''), (''CD'', ''E'')]
   \<and> [(''A'', ''BC''), (''D'', ''E'')] \<noteq> [(''A'', ''B''), (''CD'', ''E'')]
   \<and> digest_input demo_env [(''A'', ''B''), (''A'', ''BA'' @ [CHR 0x00] @ ''B'')]
       = digest_input demo_env [(''A'', ''BA'' @ [CHR 0x00] @ ''B''), (''A'', ''B'')]
   \<and> (''A'', ''B'') \<noteq> (''A'', ''BA'' @ [CHR 0x00] @ ''B'')"
  by code_simp

text \<open>
  Claim C3, amended: the digest of a transcript is the hash of the bytes that the
  \<^verbatim>\<open>(header, text)\<close> pairs of its segments feed in order (the bytes of the header, one
  zero byte, the bytes of the text, nothing between segments), so the same segments in
  the same order give the same digest; for one segment, when the bytes of the header
  hold no zero byte, the bytes fed determine the bytes of the header and the bytes of the
  text; and appending segments always changes the bytes fed. The bytes of a str are
  what the library's encoder gives, whatever it leaves out.
\<close>

theorem digest_input_properties:
  "(collect_segments E path = Inr (segs, latest, dg)
      \<longrightarrow> dg = sha256_hex E (digest_input E (pairs_of segs)))
   \<and> (0 \<notin> set (utf8_ignore E h) \<and> 0 \<notin> set (utf8_ignore E h')
      \<and> digest_input E [(h, t)] = digest_input E [(h', t')]
      \<longrightarrow> utf8_ignore E h = utf8_ignore E h' \<and> utf8_ignore E t = utf8_ignore E t')
   \<and> (digest_input E (xs @ ys) = digest_input E xs \<longrightarrow> ys = [])"
proof (intro conjI impI)
  assume "collect_segments E path = Inr (segs, latest, dg)"
  then show "dg = sha256_hex E (digest_input E (pairs_of segs))"
    by (rule collect_segments_digest)
next
  assume a: "0 \<notin> set (utf8_ignore E h) \<and> 0 \<notin> set (utf8_ignore E h')
      \<and> digest_input E [(h, t)] = digest_input E [(h', t')]"
  then have "utf8_ignore E h @ 0 # utf8_ignore E t = utf8_ignore E h' @ 0 # utf8_ignore E t'"
    by (simp add: digest_input_def feed_segment_def)
  then have "utf8_ignore E h = utf8_ignore E h' \<and> utf8_ignore E t = utf8_ignore E t'"
    using a by (intro split_at_separator[of 0]) simp_all
  then show "utf8_ignore E h = utf8_ignore E h'" "utf8_ignore E t = utf8_ignore E t'"
    by simp_all
next
  assume "digest_input E (xs @ ys) = digest_input E xs"
  then show "ys = []" by (simp add: digest_input_append digest_input_empty_iff)
qed

theorem digest_input_properties_witness:
  "collect_segments demo_env ''sessions/a/s1.jsonl''
     = Inr ([demo_segment ''A'' ''BC'', demo_segment ''D'' ''E''], None,
            ''A'' @ [CHR 0x00] @ ''BCD'' @ [CHR 0x00] @ ''E'')
   \<and> ''A'' @ [CHR 0x00] @ ''BCD'' @ [CHR 0x00] @ ''E''
       = sha256_hex demo_env
           (digest_input demo_env (pairs_of [demo_segment ''A'' ''BC'', demo_segment ''D'' ''E'']))
   \<and> 0 \<notin> set (utf8_ignore demo_env ''A'') \<and> 0 \<notin> set (utf8_ignore demo_env ''AB'')
   \<and> utf8_ignore demo_env ''A'' \<noteq> utf8_ignore demo_env ''AB''
   \<and> digest_input demo_env [(''A'', ''BC'')] \<noteq> digest_input demo_env [(''AB'', ''C'')]
   \<and> [(''D'', ''E'')] \<noteq> []
   \<and> digest_input demo_env ([(''A'', ''BC'')] @ [(''D'', ''E'')])
       \<noteq> digest_input demo_env [(''A'', ''BC'')]"
  using digest_input_properties[of demo_env "''sessions/a/s1.jsonl''"
          "[demo_segment ''A'' ''BC'', demo_segment ''D'' ''E'']" None
          "''A'' @ [CHR 0x00] @ ''BCD'' @ [CHR 0x00] @ ''E''"
          "''A''" "''AB''" "''BC''" "''C''" "[(''A'', ''BC'')]" "[(''D'', ''E'')]"]
    demo_collect_a_s1 demo_bytes
  by auto

text \<open>
  Claim C7: every event whose kind is not one of the known kinds yields a segment with
  the upper-cased kind as header and the JSON rendering of the event without its
  \<^verbatim>\<open>type\<close> field as text, and is never dropped. The fallback branch carries the comment
  \<^verbatim>\<open>Unknown payloads fall back to JSON so nothing is lost\<close>, and calls \<^verbatim>\<open>.upper()\<close> on the
  kind as it is. The kind \<^verbatim>\<open>5\<close> is not a known kind and has no \<^verbatim>\<open>upper\<close>: the fallback
  raises \<^verbatim>\<open>AttributeError\<close>, no segment is made, and the read of the transcript that
  holds the event ends with that exception, the message before it lost as well.
\<close>

theorem render_payload_numeric_kind_raises:
  "dict_get numeric_kind_payload ''type'' = JInt 5
   \<and> JInt 5 \<notin> set (map JStr known_kinds)
   \<and> render_payload demo_env numeric_kind_payload = Inl AttributeError
   \<and> json_loads demo_env numeric_kind_line = Inr (JObj [(''payload'', JObj numeric_kind_payload)])
   \<and> collect_segments demo_env ''sessions/s4.jsonl'' = Inl AttributeError"
  by code_simp

text \<open>
  For a kind that is absent (\<^verbatim>\<open>null\<close>, or no \<^verbatim>\<open>type\<close> field) or a string that is not one
  of the known kinds, the fallback does what its comment says: the result is a segment
  whose header is the upper-cased kind, \<^verbatim>\<open>UNKNOWN\<close> standing for an absent or empty kind,
  and whose text is the JSON rendering of the event without its \<^verbatim>\<open>type\<close> field, which
  is never empty.
\<close>

lemma render_payload_string_kind:
  assumes "dict_get payload ''type'' = JNull
           \<or> (dict_get payload ''type'' = JStr kind \<and> kind \<notin> set known_kinds)"
  shows "render_payload E payload =
           Inr (Some (str_upper E (if dict_get payload ''type'' = JNull \<or> kind = []
                                   then ''UNKNOWN'' else kind),
                      format_json E (without_type payload)))
         \<and> format_json E (without_type payload) \<noteq> []"
proof -
  obtain kvs where kvs: "without_type payload = JObj kvs" by (simp add: without_type_def)
  have ne: "format_json E (without_type payload) \<noteq> []"
    by (simp add: kvs format_obj_nonempty)
  from assms show ?thesis
  proof
    assume n: "dict_get payload ''type'' = JNull"
    then show ?thesis using ne
      by (simp add: render_payload_def in_str_set_def seq_def py_or_def val_upper_def
            kvs finish_format_obj)
  next
    assume k: "dict_get payload ''type'' = JStr kind \<and> kind \<notin> set known_kinds"
    then show ?thesis using ne
      by (simp add: render_payload_def in_str_set_def seq_def py_or_def val_upper_def
            known_kinds_def kvs finish_format_obj)
  qed
qed

lemma render_payload_string_kind_example:
  "dict_get custom_payload ''type'' = JStr ''custom_event''
   \<and> ''custom_event'' \<notin> set known_kinds
   \<and> render_payload demo_env custom_payload
       = Inr (Some (''CUSTOM_EVENT'', format_json demo_env (without_type custom_payload)))
   \<and> format_json demo_env (without_type custom_payload) \<noteq> []"
proof -
  have k: "dict_get custom_payload ''type'' = JStr ''custom_event''"
    by (simp add: custom_payload_def dict_get_def)
  have n: "''custom_event'' \<notin> set known_kinds" by (simp add: known_kinds_def)
  have u: "str_upper demo_env ''custom_event'' = ''CUSTOM_EVENT''"
    by code_simp
  show ?thesis
    using render_payload_string_kind[of custom_payload "''custom_event''" demo_env] k n u
    by simp
qed

text \<open>
  Claim C8: any line that is not a valid record is skipped without affecting what the
  other lines contribute, and a single corrupt line never ends the read. The loop wraps
  \<^verbatim>\<open>json.loads\<close> in \<^verbatim>\<open>try\<close> / \<^verbatim>\<open>except json.JSONDecodeError: continue\<close> to that end, and
  misses the line that is JSON but not an object. The line \<^verbatim>\<open>42\<close> passes \<^verbatim>\<open>json.loads\<close>;
  the next statement calls \<^verbatim>\<open>data.get\<close> on the number and the read ends with
  \<^verbatim>\<open>AttributeError\<close>, the segment of the line before it lost with it.
\<close>

theorem collect_number_line_raises:
  "json_loads demo_env number_line = Inr (JInt 42)
   \<and> collect_from_lines demo_env [msg_line ''A'' ''BC'']
       = Inr ([demo_segment ''A'' ''BC''], None, ''A'' @ [CHR 0x00] @ ''BC'')
   \<and> collect_from_lines demo_env [msg_line ''A'' ''BC'', number_line] = Inl AttributeError
   \<and> collect_segments demo_env ''sessions/s3.jsonl'' = Inl AttributeError"
  by code_simp

text \<open>
  For a line that \<^verbatim>\<open>json.loads\<close> rejects with \<^verbatim>\<open>JSONDecodeError\<close> the loop does what the
  claim says: the read of the transcript gives the same segments, latest timestamp and
  digest, or the same exception, as the read of the transcript without that line; and a
  transcript in which every line is rejected so gives the empty list of segments, not
  an error.
\<close>

lemma collect_skips_undecodable:
  assumes "json_loads E raw = Inl JSONDecodeError"
  shows "collect_lines E (before @ raw # after) st = collect_lines E (before @ after) st
       \<and> collect_from_lines E (before @ raw # after) = collect_from_lines E (before @ after)
       \<and> ((\<forall>l\<in>set lines. json_loads E l = Inl JSONDecodeError)
            \<longrightarrow> collect_from_lines E lines = Inr ([], None, sha256_hex E []))"
proof -
  have skip: "collect_lines E (before @ raw # after) st' = collect_lines E (before @ after) st'"
    for st'
  proof (cases "collect_lines E before st'")
    case (Inl e)
    then show ?thesis by (simp add: collect_lines_append)
  next
    case (Inr st'')
    then show ?thesis
      by (simp add: collect_lines_append collect_line_undecodable[OF assms])
  qed
  have "collect_from_lines E (before @ raw # after) = collect_from_lines E (before @ after)"
    unfolding collect_from_lines_def by (simp only: skip)
  moreover have "collect_from_lines E lines = Inr ([], None, sha256_hex E [])"
    if "\<forall>l\<in>set lines. json_loads E l = Inl JSONDecodeError"
    using that by (simp add: collect_from_lines_def collect_lines_all_undecodable)
  ultimately show ?thesis using skip by blast
qed

lemma collect_skips_undecodable_example:
  "json_loads demo_env broken_line = Inl JSONDecodeError
   \<and> collect_from_lines demo_env ([msg_line ''A'' ''BC''] @ broken_line # [msg_line ''D'' ''E''])
       = Inr ([demo_segment ''A'' ''BC'', demo_segment ''D'' ''E''], None,
              ''A'' @ [CHR 0x00] @ ''BCD'' @ [CHR 0x00] @ ''E'')
   \<and> collect_from_lines demo_env [broken_line] = Inr ([], None, sha256_hex demo_env [])"
  using collect_skips_undecodable[OF demo_broken, of "[msg_line ''A'' ''BC'']"
          "[msg_line ''D'' ''E'']" _ "[broken_line]"]
    demo_collect_two demo_broken
  by simp

section \<open>The claims about the refresh\<close>

text \<open>
  Claim C4, as stated: for every set of transcripts, a second refresh right after a
  first, without \<^verbatim>\<open>force\<close> and with no transcript changed, dispatches nothing, reports
  that all summaries are up to date, leaves the index as it is and sends no request.
  Three runs of the code say otherwise. A transcript whose summarization fails in the
  first run (the service fails on the first request) gets no entry, so the second run
  dispatches it again, sends a request and adds its entry. Two transcripts with the same
  session identity share one entry, which holds the digest of the one summarized last,
  so the second run dispatches the other one again. And an answer of the service that
  has a field \<^verbatim>\<open>digest\<close> replaces the digest stored in the entry, which then never
  matches.
\<close>

theorem refresh_idempotent_counterexample:
  "(case refresh_summaries flaky_env [''sessions/b/s2.jsonl''] ''out'' Map.empty ''gpt-5'' 200000
           None False world0 of
      Inr (w1, Some idx1) \<Rightarrow>
        (case refresh_summaries flaky_env [''sessions/b/s2.jsonl''] ''out'' idx1 ''gpt-5'' 200000
                None False w1 of
           Inr (w2, Some idx2) \<Rightarrow>
             printed w1 = [TokenWarning, Warn ''s2.jsonl'' (RuntimeError ''OpenAI API error (500)'')]
             \<and> requests w1 = 1 \<and> \<not> has_entry idx1 ''s2''
             \<and> printed w2 = printed w1 @ [Refreshed ''s2'' ''out/s2.md'' (JStr ''out/s2.history.md'')]
             \<and> requests w2 = 2 \<and> has_entry idx2 ''s2''
         | _ \<Rightarrow> False)
    | _ \<Rightarrow> False)
   \<and> derive_session_id ''sessions/b/s2.jsonl'' = derive_session_id ''sessions/c/s2.jsonl''
   \<and> (case refresh_summaries demo_env [''sessions/b/s2.jsonl'', ''sessions/c/s2.jsonl''] ''out''
             Map.empty ''gpt-5'' 200000 None False world0 of
        Inr (w1, Some idx1) \<Rightarrow>
          (case refresh_summaries demo_env [''sessions/b/s2.jsonl'', ''sessions/c/s2.jsonl''] ''out''
                  idx1 ''gpt-5'' 200000 None False w1 of
             Inr (w2, Some idx2) \<Rightarrow>
               printed w1 = [TokenWarning,
                             Refreshed ''s2'' ''out/s2.md'' (JStr ''out/s2.history.md''),
                             Refreshed ''s2'' ''out/s2.md'' (JStr ''out/s2.history.md'')]
               \<and> requests w1 = 2
               \<and> printed w2 = printed w1 @ [Refreshed ''s2'' ''out/s2.md'' (JStr ''out/s2.history.md'')]
               \<and> requests w2 = 3
           | _ \<Rightarrow> False)
      | _ \<Rightarrow> False)
   \<and> (case refresh_summaries echo_env [''sessions/b/s2.jsonl''] ''out'' Map.empty ''gpt-5'' 200000
             None False world0 of
        Inr (w1, Some idx1) \<Rightarrow>
          (case refresh_summaries echo_env [''sessions/b/s2.jsonl''] ''out'' idx1 ''gpt-5'' 200000
                  None False w1 of
             Inr (w2, Some idx2) \<Rightarrow>
               printed w1 = [TokenWarning,
                             Refreshed ''s2'' ''out/s2.md'' (JStr ''out/s2.history.md'')]
               \<and> requests w1 = 1
               \<and> printed w2 = printed w1 @ [Refreshed ''s2'' ''out/s2.md'' (JStr ''out/s2.history.md'')]
               \<and> requests w2 = 2
           | _ \<Rightarrow> False)
      | _ \<Rightarrow> False)"
  by code_simp

text \<open>
  Claim C4, amended: when the transcripts considered have pairwise distinct session
  identities, no summarization failed in the first run (it printed no warning of
  failure) and the answers of the service have no field \<^verbatim>\<open>digest\<close>, a second refresh
  without \<^verbatim>\<open>force\<close>, run on the index the first one left (the one it wrote, or the one
  it read when it wrote none) and on the same transcripts, whatever the model and the
  budget, dispatches nothing: it prints that all summaries are up to date, does not
  write the index, and changes nothing else; in particular it sends no request.
\<close>

theorem refresh_idempotent:
  assumes first: "refresh_summaries E found dir idx model mt limit False w = Inr (w1, out)"
    and no_failure: "\<forall>name exc. Warn name exc \<notin> set (drop (length (printed w)) (printed w1))"
    and identities: "distinct (map derive_session_id (apply_limit limit found))"
    and no_digest_field:
      "\<forall>n mo s u d. remote E n mo s u = Inr (JObj d) \<longrightarrow> map_of d ''digest'' = None"
  shows "refresh_summaries E found dir (case out of None \<Rightarrow> idx | Some idx1 \<Rightarrow> idx1)
           model' mt' limit False w1
         = Inr (w1\<lparr>printed := printed w1 @ [UpToDate]\<rparr>, None)"
proof -
  let ?ss = "apply_limit limit found"
  from refresh_summaries_cases[OF first] show ?thesis
  proof (elim disjE exE conjE)
    assume sel: "select_stale E idx False ?ss = Inr []" and out: "out = None"
    from select_stale_sound[OF sel] have "\<forall>p\<in>set ?ss. up_to_date E idx p" by simp
    then show ?thesis using out by (simp add: refresh_summaries_up_to_date)
  next
    fix tp idx1
    assume sel: "select_stale E idx False ?ss = Inr tp"
      and run: "process_all E model mt dir tp (w, idx) = (w1, idx1)"
      and out: "out = Some idx1"
    from select_stale_sound[OF sel]
    have sub: "set tp \<subseteq> set ?ss" and old: "\<forall>p\<in>set ?ss. p \<notin> set tp \<longrightarrow> up_to_date E idx p"
      by simp_all
    have dtp: "distinct (map derive_session_id tp)"
      using select_stale_distinct[OF sel, of derive_session_id] identities by blast
    from process_all_printed[OF run] obtain evs where evs: "printed w1 = printed w @ evs"
      by blast
    then have "\<forall>name exc. Warn name exc \<notin> set evs" using no_failure by simp
    from process_all_fresh[OF run evs this dtp no_digest_field]
    have new: "\<forall>p\<in>set tp. up_to_date E idx1 p" .
    have inj: "inj_on derive_session_id (set ?ss)"
      using identities by (simp add: distinct_map)
    have "\<forall>p\<in>set ?ss. up_to_date E idx1 p"
    proof
      fix p assume p: "p \<in> set ?ss"
      show "up_to_date E idx1 p"
      proof (cases "p \<in> set tp")
        case True
        with new show ?thesis by blast
      next
        case False
        have "derive_session_id p \<notin> derive_session_id ` set tp"
        proof
          assume "derive_session_id p \<in> derive_session_id ` set tp"
          then obtain q where q: "q \<in> set tp" "derive_session_id p = derive_session_id q"
            by blast
          with sub p inj have "p = q" by (auto dest: inj_onD)
          with q(1) False show False by simp
        qed
        from process_all_untouched[OF run this]
        have "up_to_date E idx1 p = up_to_date E idx p" by (rule up_to_date_cong)
        with old p False show ?thesis by blast
      qed
    qed
    then show ?thesis using out by (simp add: refresh_summaries_up_to_date)
  qed
qed

theorem refresh_idempotent_witness:
  "case refresh_summaries demo_env [''sessions/b/s1.jsonl'', ''sessions/b/s2.jsonl''] ''out''
          Map.empty ''gpt-5'' 200000 None False world0 of
     Inr (w1, out) \<Rightarrow>
       printed w1 = [TokenWarning,
                     Refreshed ''s1'' ''out/s1.md'' (JStr ''out/s1.history.md''),
                     Refreshed ''s2'' ''out/s2.md'' (JStr ''out/s2.history.md'')]
       \<and> requests w1 = 2
       \<and> refresh_summaries demo_env [''sessions/b/s1.jsonl'', ''sessions/b/s2.jsonl''] ''out''
            (case out of None \<Rightarrow> Map.empty | Some idx1 \<Rightarrow> idx1) ''gpt-5'' 200000 None False w1
          = Inr (w1\<lparr>printed := printed w1 @ [UpToDate]\<rparr>, None)
   | _ \<Rightarrow> False"
proof (cases "refresh_summaries demo_env [''sessions/b/s1.jsonl'', ''sessions/b/s2.jsonl''] ''out''
          Map.empty ''gpt-5'' 200000 None False world0")
  case (Inl e)
  with demo_first_run show ?thesis by simp
next
  case (Inr result)
  obtain w1 out where result: "result = (w1, out)" by (cases result)
  from demo_first_run Inr result have p:
    "printed w1 = [TokenWarning,
                   Refreshed ''s1'' ''out/s1.md'' (JStr ''out/s1.history.md''),
                   Refreshed ''s2'' ''out/s2.md'' (JStr ''out/s2.history.md'')]"
    "requests w1 = 2"
    by simp_all
  have nf: "\<forall>name exc. Warn name exc \<notin> set (drop (length (printed world0)) (printed w1))"
    using p(1) by (simp add: world0_def)
  show ?thesis
    using refresh_idempotent[OF Inr[unfolded result] nf demo_identities demo_no_digest_field,
            of "''gpt-5''" 200000] p Inr result
    by simp
qed





end
